theory Spec2Isabelle
  imports Complex_Main "HOL-Library.AList"
begin

section \<open>JavaScript strings\<close>

text \<open>
  A JavaScript string is a sequence of UTF-16 code units; \<open>s[i]\<close>, \<open>s.length\<close>,
  \<open>indexOf\<close>, \<open>replace\<close> and \<open>trim\<close> all work on code units. A code unit is modelled
  by its number.
\<close>

type_synonym code_unit = nat
type_synonym jstring = "code_unit list"

text \<open>An ASCII literal of the source, as code units.\<close>

definition js :: "string \<Rightarrow> jstring" where
  "js s = map of_char s"

section \<open>Text normalizer (advanced\_search.js)\<close>

definition arabicDigits :: jstring where
  "arabicDigits = [0x660, 0x661, 0x662, 0x663, 0x664, 0x665, 0x666, 0x667, 0x668, 0x669]"

definition persianDigits :: jstring where
  "persianDigits = [0x6F0, 0x6F1, 0x6F2, 0x6F3, 0x6F4, 0x6F5, 0x6F6, 0x6F7, 0x6F8, 0x6F9]"

definition englishDigits :: jstring where
  "englishDigits = [0x30, 0x31, 0x32, 0x33, 0x34, 0x35, 0x36, 0x37, 0x38, 0x39]"

text \<open>\<open>str.indexOf(char)\<close> for a one-unit string \<open>char\<close>: the first position, or -1.\<close>

fun indexOf :: "jstring \<Rightarrow> code_unit \<Rightarrow> int" where
  "indexOf [] c = -1"
| "indexOf (d # ds) c =
     (if d = c then 0 else (let r = indexOf ds c in if r = -1 then -1 else r + 1))"

text \<open>The body of the loop of \<open>convertToEnglishDigits\<close>: what one unit adds to \<open>outputStr\<close>.\<close>

definition convertDigit :: "code_unit \<Rightarrow> code_unit" where
  "convertDigit char =
     (let index = indexOf arabicDigits char in
      if index \<noteq> -1 then englishDigits ! nat index
      else (let index = indexOf persianDigits char in
            if index \<noteq> -1 then englishDigits ! nat index
            else char))"

fun convertToEnglishDigits :: "jstring \<Rightarrow> jstring" where
  "convertToEnglishDigits [] = []"
| "convertToEnglishDigits (char # rest) = convertDigit char # convertToEnglishDigits rest"

text \<open>
  \<open>text.replace(/a|b|c/g, r)\<close> where every alternative is one code unit: each unit that is
  one of the alternatives becomes \<open>r\<close>.
\<close>

definition replaceAll :: "code_unit list \<Rightarrow> code_unit \<Rightarrow> jstring \<Rightarrow> jstring" where
  "replaceAll alts r s = map (\<lambda>c. if c \<in> set alts then r else c) s"

text \<open>
  \<open>String.prototype.trim\<close> strips the code units that ECMAScript calls WhiteSpace or
  LineTerminator from both ends.
\<close>

definition isWhiteSpace :: "code_unit \<Rightarrow> bool" where
  "isWhiteSpace c \<longleftrightarrow>
     c \<in> {0x9, 0xA, 0xB, 0xC, 0xD, 0x20, 0xA0, 0x1680, 0x2028, 0x2029, 0x202F, 0x205F,
          0x3000, 0xFEFF} \<or> (0x2000 \<le> c \<and> c \<le> 0x200A)"

definition trim :: "jstring \<Rightarrow> jstring" where
  "trim s = rev (dropWhile isWhiteSpace (rev (dropWhile isWhiteSpace s)))"

definition normalizePersianArabicChars :: "jstring \<Rightarrow> jstring" where
  "normalizePersianArabicChars text =
     trim
       (replaceAll [0x629] 0x647
       (replaceAll [0x625, 0x623, 0x622] 0x627
       (replaceAll [0x624] 0x648
       (replaceAll [0x626] 0x64A
       (replaceAll [0x649] 0x64A
       (replaceAll [0x6CC] 0x64A
       (replaceAll [0x6A9] 0x643 text)))))))"

text \<open>
  The normalizer as \<open>advancedSearch\<close> and its callers compose it:
  \<open>convertToEnglishDigits(normalizePersianArabicChars(query))\<close>.
\<close>

definition normalizeQuery :: "jstring \<Rightarrow> jstring" where
  "normalizeQuery query = convertToEnglishDigits (normalizePersianArabicChars query)"

section \<open>Similarity scorer (advanced\_search.js)\<close>

text \<open>
  JavaScript numbers are modelled by exact numbers: lengths, distances, counters and
  identifiers by \<open>nat\<close> and \<open>int\<close>, similarities and scores by \<open>real\<close>. Rounding of
  IEEE doubles is outside the model, except in \<open>getStats\<close>, whose string depends on it.

  \<open>String.prototype.toLowerCase\<close> applies the Unicode case mapping, and
  \<open>String.prototype.localeCompare\<close> the collation of the host; both are builtins of
  the runtime. The functions that call them take them as arguments.
\<close>

definition startsWith :: "jstring \<Rightarrow> jstring \<Rightarrow> bool" where
  "startsWith s p \<longleftrightarrow> take (length p) s = p"

fun includesStr :: "jstring \<Rightarrow> jstring \<Rightarrow> bool" where
  "includesStr [] p \<longleftrightarrow> p = []"
| "includesStr (c # cs) p \<longleftrightarrow> startsWith (c # cs) p \<or> includesStr cs p"

subsection \<open>Levenshtein distance: the table and the loops that fill it\<close>

type_synonym table = "nat list list"

text \<open>\<open>dp[i][j] = v\<close>\<close>

definition setCell :: "table \<Rightarrow> nat \<Rightarrow> nat \<Rightarrow> nat \<Rightarrow> table" where
  "setCell dp i j v = dp[i := (dp ! i)[j := v]]"

text \<open>\<open>for (let i = 0; i <= m; i++) dp[i][0] = i;\<close>\<close>

definition initColumn :: "nat \<Rightarrow> table \<Rightarrow> table" where
  "initColumn m dp = fold (\<lambda>i dp. setCell dp i 0 i) [0..<m + 1] dp"

text \<open>\<open>for (let j = 0; j <= n; j++) dp[0][j] = j;\<close>\<close>

definition initRow :: "nat \<Rightarrow> table \<Rightarrow> table" where
  "initRow n dp = fold (\<lambda>j dp. setCell dp 0 j j) [0..<n + 1] dp"

text \<open>The body of the inner loop, at \<open>i\<close> and \<open>j\<close>, both at least 1.\<close>

definition fillCell :: "jstring \<Rightarrow> jstring \<Rightarrow> nat \<Rightarrow> nat \<Rightarrow> table \<Rightarrow> table" where
  "fillCell str1 str2 i j dp =
     (if str1 ! (i - 1) = str2 ! (j - 1)
      then setCell dp i j (dp ! (i - 1) ! (j - 1))
      else setCell dp i j
             (min (dp ! (i - 1) ! j) (min (dp ! i ! (j - 1)) (dp ! (i - 1) ! (j - 1))) + 1))"

definition fillRow :: "jstring \<Rightarrow> jstring \<Rightarrow> nat \<Rightarrow> table \<Rightarrow> table" where
  "fillRow str1 str2 i dp = fold (\<lambda>j dp. fillCell str1 str2 i j dp) [1..<length str2 + 1] dp"

definition fillTable :: "jstring \<Rightarrow> jstring \<Rightarrow> table \<Rightarrow> table" where
  "fillTable str1 str2 dp = fold (\<lambda>i dp. fillRow str1 str2 i dp) [1..<length str1 + 1] dp"

text \<open>
  Every read and write of the table and of the two strings is in range: \<open>i\<close> runs to
  \<open>m\<close> and \<open>j\<close> to \<open>n\<close> in a table of \<open>m + 1\<close> rows of \<open>n + 1\<close> cells.
\<close>

definition levenshteinDistance :: "jstring \<Rightarrow> jstring \<Rightarrow> nat" where
  "levenshteinDistance str1 str2 =
     (let m = length str1;
          n = length str2;
          dp = replicate (m + 1) (replicate (n + 1) 0);
          dp = initColumn m dp;
          dp = initRow n dp;
          dp = fillTable str1 str2 dp
      in dp ! m ! n)"

text \<open>
  In the last branch \<open>s1\<close> and \<open>s2\<close> differ, so \<open>maxLen\<close> is not zero and the division
  is defined.
\<close>

definition calculateSimilarity :: "(jstring \<Rightarrow> jstring) \<Rightarrow> jstring \<Rightarrow> jstring \<Rightarrow> real" where
  "calculateSimilarity toLowerCase str1 str2 =
     (let s1 = toLowerCase str1;
          s2 = toLowerCase str2
      in if s1 = s2 then 1.0
         else if startsWith s1 s2 \<or> startsWith s2 s1 then 0.9
         else if includesStr s1 s2 \<or> includesStr s2 s1 then 0.7
         else (let distance = levenshteinDistance s1 s2;
                   maxLen = max (length s1) (length s2)
               in 1 - real distance / real maxLen))"

subsection \<open>Configuration (config.js)\<close>

record config =
  maxSimilarResults :: int
  weights_bookName :: real
  weights_authorName :: real
  fuzzyThreshold :: real
  cache_enabled :: bool
  cache_maxKeys :: nat

definition config :: config where
  "config = \<lparr> maxSimilarResults = 10, weights_bookName = 0.7, weights_authorName = 0.3,
              fuzzyThreshold = 0.3, cache_enabled = True, cache_maxKeys = 1000 \<rparr>"

subsection \<open>Catalog rows and their score\<close>

text \<open>
  A row of \<open>usol_books\<close> as the query of \<open>advancedSearch\<close> selects it. A text column
  that holds no string (\<open>null\<close>, or a missing property) is \<open>None\<close>. The two counters
  are \<open>INTEGER DEFAULT 0\<close> columns and the identifier is the primary key: integers.
\<close>

record book =
  book_id :: int
  file_path :: "jstring option"
  emergency_file_path :: "jstring option"
  book_name :: "jstring option"
  author_name :: "jstring option"
  category :: "jstring option"
  request_count :: int
  total_requests :: int

text \<open>
  The exceptions of the model: the TypeError of a method call on a value that is no
  string, and the error \<open>ECACHEFULL\<close> of the cache library.
\<close>

datatype error = TypeError | ECACHEFULL

text \<open>
  \<open>book.book_name.toLowerCase()\<close> and \<open>book.author_name.toLowerCase()\<close> raise a TypeError
  on a value that is not a string; the name is read first.
\<close>

definition scoreBook :: "(jstring \<Rightarrow> jstring) \<Rightarrow> config \<Rightarrow> book \<Rightarrow> jstring \<Rightarrow> error + real" where
  "scoreBook toLowerCase cfg book query =
     (let normalizedQuery = normalizePersianArabicChars (toLowerCase query) in
      case book_name book of
        None \<Rightarrow> Inl TypeError
      | Some name \<Rightarrow>
          let normalizedBookName = normalizePersianArabicChars (toLowerCase name) in
          (case author_name book of
             None \<Rightarrow> Inl TypeError
           | Some author \<Rightarrow>
               let normalizedAuthorName = normalizePersianArabicChars (toLowerCase author);
                   bookNameScore = calculateSimilarity toLowerCase normalizedBookName normalizedQuery;
                   authorNameScore =
                     calculateSimilarity toLowerCase normalizedAuthorName normalizedQuery;
                   totalScore = bookNameScore * weights_bookName cfg
                              + authorNameScore * weights_authorName cfg;
                   popularityBoost = min (real_of_int (request_count book) / 100) 0.1
               in Inr (totalScore + popularityBoost)))"

text \<open>\<open>{ ...book, score: scoreBook(book, normalizedQuery) }\<close>\<close>

record scored_book = book +
  score :: real

definition withScore :: "book \<Rightarrow> real \<Rightarrow> scored_book" where
  "withScore book s = book.extend book (scored_book.fields s)"

text \<open>
  \<open>allBooks.map((book) => ...)\<close> scores the candidates in order; the first exception leaves
  the map.
\<close>

fun scoreAll :: "(jstring \<Rightarrow> jstring) \<Rightarrow> config \<Rightarrow> jstring \<Rightarrow> book list \<Rightarrow> error + scored_book list" where
  "scoreAll toLowerCase cfg query [] = Inr []"
| "scoreAll toLowerCase cfg query (book # rest) =
     (case scoreBook toLowerCase cfg book query of
        Inl e \<Rightarrow> Inl e
      | Inr s \<Rightarrow>
          (case scoreAll toLowerCase cfg query rest of
             Inl e \<Rightarrow> Inl e
           | Inr scored \<Rightarrow> Inr (withScore book s # scored)))"

section \<open>Search options and the cache key (search\_cache.js)\<close>

text \<open>
  The options object: its own properties in the order in which they were written, each
  with a value of the type \<open>advancedSearch\<close> expects (\<open>null\<close> is \<open>None\<close>). A property that
  is absent is \<open>undefined\<close>.
\<close>

datatype option_field =
    Category "jstring option"
  | Author "jstring option"
  | SortBy jstring
  | Limit int

type_synonym options = "option_field list"

text \<open>The destructuring \<open>{ sortBy = "relevance", limit = config.search.maxSimilarResults }\<close>.\<close>

fun optSortBy :: "options \<Rightarrow> jstring" where
  "optSortBy [] = js ''relevance''"
| "optSortBy (SortBy v # rest) = v"
| "optSortBy (f # rest) = optSortBy rest"

fun optLimit :: "config \<Rightarrow> options \<Rightarrow> int" where
  "optLimit cfg [] = maxSimilarResults cfg"
| "optLimit cfg (Limit n # rest) = n"
| "optLimit cfg (f # rest) = optLimit cfg rest"

subsection \<open>\<open>JSON.stringify\<close> of the options\<close>

definition hexDigit :: "nat \<Rightarrow> code_unit" where
  "hexDigit d = (if d < 10 then 0x30 + d else 0x57 + d)"

text \<open>\<open>\uXXXX\<close>, with lower-case hexadecimal digits.\<close>

definition unicodeEscape :: "code_unit \<Rightarrow> jstring" where
  "unicodeEscape c =
     [0x5C, 0x75, hexDigit (c div 4096 mod 16), hexDigit (c div 256 mod 16),
      hexDigit (c div 16 mod 16), hexDigit (c mod 16)]"

definition isLeadingSurrogate :: "code_unit \<Rightarrow> bool" where
  "isLeadingSurrogate c \<longleftrightarrow> 0xD800 \<le> c \<and> c \<le> 0xDBFF"

definition isTrailingSurrogate :: "code_unit \<Rightarrow> bool" where
  "isTrailingSurrogate c \<longleftrightarrow> 0xDC00 \<le> c \<and> c \<le> 0xDFFF"

text \<open>
  One code unit that is no surrogate: backspace, tab, line feed, form feed, carriage
  return, the quote and the backslash have a two-character escape, the other control
  characters a \<open>\u\<close> escape.
\<close>

definition escapeUnit :: "code_unit \<Rightarrow> jstring" where
  "escapeUnit c =
     (if c = 0x08 then [0x5C, 0x62]
      else if c = 0x09 then [0x5C, 0x74]
      else if c = 0x0A then [0x5C, 0x6E]
      else if c = 0x0C then [0x5C, 0x66]
      else if c = 0x0D then [0x5C, 0x72]
      else if c = 0x22 then [0x5C, 0x22]
      else if c = 0x5C then [0x5C, 0x5C]
      else if c < 0x20 then unicodeEscape c
      else [c])"

text \<open>A surrogate pair is copied; a surrogate outside a pair gets a \<open>\u\<close> escape.\<close>

fun quoteUnits :: "jstring \<Rightarrow> jstring" where
  "quoteUnits [] = []"
| "quoteUnits [c] =
     (if isLeadingSurrogate c \<or> isTrailingSurrogate c then unicodeEscape c else escapeUnit c)"
| "quoteUnits (c # d # rest) =
     (if isLeadingSurrogate c \<and> isTrailingSurrogate d then c # d # quoteUnits rest
      else if isLeadingSurrogate c \<or> isTrailingSurrogate c
        then unicodeEscape c @ quoteUnits (d # rest)
      else escapeUnit c @ quoteUnits (d # rest))"

definition quoteJSONString :: "jstring \<Rightarrow> jstring" where
  "quoteJSONString s = [0x22] @ quoteUnits s @ [0x22]"

text \<open>The decimal digits of a natural number, and of an integer.\<close>

function decimalNat :: "nat \<Rightarrow> jstring" where
  "decimalNat n = (if n < 10 then [0x30 + n] else decimalNat (n div 10) @ [0x30 + n mod 10])"
  by pat_completeness auto
termination
  by (relation "measure id") auto

declare decimalNat.simps [simp del]

definition decimalInt :: "int \<Rightarrow> jstring" where
  "decimalInt n = (if n < 0 then 0x2D # decimalNat (nat (- n)) else decimalNat (nat n))"

fun serializeProperty :: "option_field \<Rightarrow> jstring" where
  "serializeProperty (Category None) = js ''\"category\":null''"
| "serializeProperty (Category (Some v)) = js ''\"category\":'' @ quoteJSONString v"
| "serializeProperty (Author None) = js ''\"author\":null''"
| "serializeProperty (Author (Some v)) = js ''\"author\":'' @ quoteJSONString v"
| "serializeProperty (SortBy v) = js ''\"sortBy\":'' @ quoteJSONString v"
| "serializeProperty (Limit n) = js ''\"limit\":'' @ decimalInt n"

fun joinComma :: "jstring list \<Rightarrow> jstring" where
  "joinComma [] = []"
| "joinComma [p] = p"
| "joinComma (p # q # rest) = p @ js '','' @ joinComma (q # rest)"

text \<open>The properties are written in the order the object holds them.\<close>

definition JSON_stringify :: "options \<Rightarrow> jstring" where
  "JSON_stringify options = js ''{'' @ joinComma (map serializeProperty options) @ js ''}''"

definition generateSearchKey :: "jstring \<Rightarrow> options \<Rightarrow> jstring" where
  "generateSearchKey query options =
     (let optionsStr = JSON_stringify options
      in js ''search:'' @ query @ js '':'' @ optionsStr)"

section \<open>Result cache (search\_cache.js)\<close>

text \<open>
  What a search returns and the cache holds: rows of the catalog, as fetched (the exact-ID
  shortcut) or with their score.
\<close>

datatype row = Plain book | Scored scored_book

text \<open>
  Modelled from the spec: the store behind the module is an instance of the third-party
  \<open>node-cache\<close> library, whose code is not part of the repository; the module creates it
  with \<open>maxKeys: config.cache.maxKeys\<close>. Section 4.4 of the specification describes it
  as a bounded mapping from keys to values in which \<open>set\<close> inserts or overwrites, and
  fails at capacity. The library checks the capacity first and signals the failure by
  throwing the error \<open>ECACHEFULL\<close>: a \<open>set\<close> on a store that already holds \<open>maxKeys\<close>
  keys throws and stores nothing; otherwise it stores the value and returns \<open>true\<close>.
  Expiry after the TTL is not modelled: no entry expires.
\<close>

type_synonym node_cache = "(jstring \<times> row list) list"

definition nc_get :: "node_cache \<Rightarrow> jstring \<Rightarrow> row list option" where
  "nc_get data key = map_of data key"

definition nc_keys :: "node_cache \<Rightarrow> jstring list" where
  "nc_keys data = map fst data"

definition nc_set ::
  "nat \<Rightarrow> node_cache \<Rightarrow> jstring \<Rightarrow> row list \<Rightarrow> nat option \<Rightarrow> error + bool \<times> node_cache" where
  "nc_set maxKeys data key v ttl =
     (if length (nc_keys data) \<ge> maxKeys then Inl ECACHEFULL
      else Inr (True, AList.update key v data))"

text \<open>
  The module state: the store and the two counters. The functions \<open>get\<close> and \<open>set\<close> of
  the module carry the name under which \<open>advanced_search.js\<close> calls them,
  \<open>searchCache.get\<close> and \<open>searchCache.set\<close>.
\<close>

record cache_state =
  searchCache :: node_cache
  hits :: nat
  misses :: nat

definition searchCache_get :: "config \<Rightarrow> jstring \<Rightarrow> cache_state \<Rightarrow> row list option \<times> cache_state" where
  "searchCache_get cfg key st =
     (if \<not> cache_enabled cfg then (None, st)
      else (case nc_get (searchCache st) key of
              Some v \<Rightarrow> (Some v, st\<lparr>hits := hits st + 1\<rparr>)
            | None \<Rightarrow> (None, st\<lparr>misses := misses st + 1\<rparr>)))"

text \<open>
  \<open>ttl\<close> is \<open>None\<close> when the caller passes none; the store then uses its default. The
  function has no \<open>try\<close>: an exception of the store leaves it.
\<close>

definition searchCache_set ::
  "config \<Rightarrow> jstring \<Rightarrow> row list \<Rightarrow> nat option \<Rightarrow> cache_state \<Rightarrow> error + bool \<times> cache_state" where
  "searchCache_set cfg key v ttl st =
     (if \<not> cache_enabled cfg then Inr (False, st)
      else (case (if ttl \<noteq> None \<and> ttl \<noteq> Some 0
                  then nc_set (cache_maxKeys cfg) (searchCache st) key v ttl
                  else nc_set (cache_maxKeys cfg) (searchCache st) key v None) of
              Inl e \<Rightarrow> Inl e
            | Inr (success, data) \<Rightarrow> Inr (success, st\<lparr>searchCache := data\<rparr>)))"

subsection \<open>Statistics\<close>

text \<open>
  The hit rate is computed in IEEE 754 double precision, each operation giving the double
  nearest to the exact result, a tie going to the even significand. \<open>roundToDouble x\<close>
  is that double for a real number \<open>x\<close>: \<open>x\<close> is doubled or halved until it lies
  between \<open>2^52\<close> and \<open>2^53\<close>, where the doubles are the integers, rounded there and
  scaled back. The exponent is not bounded (no overflow and no subnormal numbers: the
  quotients and percentages of \<open>getStats\<close> are far from both), and the counters are
  exact, as the code's are below \<open>2^53\<close>.
\<close>

definition roundHalfEven :: "real \<Rightarrow> int" where
  "roundHalfEven x =
     (let f = \<lfloor>x\<rfloor>; d = x - of_int f
      in if d < 1 / 2 then f else if 1 / 2 < d then f + 1 else if even f then f else f + 1)"

definition significandLow :: real where
  "significandLow = 2 ^ 52"

text \<open>A bound on the doublings or halvings that bring \<open>x\<close> between \<open>c\<close> and \<open>2 * c\<close>.\<close>

definition scaleSteps :: "real \<Rightarrow> real \<Rightarrow> nat" where
  "scaleSteps c x = (if x < c then nat \<lceil>c / x\<rceil> else nat \<lceil>x / c\<rceil> - 1)"

function roundToDouble :: "real \<Rightarrow> real" where
  "roundToDouble x =
     (if x \<le> 0 then 0
      else if x < significandLow then roundToDouble (2 * x) / 2
      else if 2 * significandLow \<le> x then 2 * roundToDouble (x / 2)
      else of_int (roundHalfEven x))"
  by pat_completeness auto
termination
proof -
  have half: "\<lceil>a / 2\<rceil> < \<lceil>a\<rceil>" if "1 < a" for a :: real
  proof -
    have "2 \<le> \<lceil>a\<rceil>" using that by linarith
    then have c: "2 \<le> real_of_int \<lceil>a\<rceil>" by linarith
    have "a \<le> real_of_int \<lceil>a\<rceil>" by linarith
    with c have "a / 2 \<le> real_of_int \<lceil>a\<rceil> - 1" by linarith
    then have "a / 2 \<le> real_of_int (\<lceil>a\<rceil> - 1)" by simp
    then have "\<lceil>a / 2\<rceil> \<le> \<lceil>a\<rceil> - 1" by (rule ceiling_le)
    then show ?thesis by simp
  qed
  have up: "scaleSteps c (2 * x) < scaleSteps c x" if "0 < x" "x < c" for x c :: real
  proof -
    let ?a = "c / x"
    have a: "1 < ?a" using that by simp
    then have a2: "2 \<le> \<lceil>?a\<rceil>" by linarith
    have s2: "scaleSteps c x = nat \<lceil>?a\<rceil>"
      using that(2) unfolding scaleSteps_def by (rule if_P)
    show ?thesis
    proof (cases "2 * x < c")
      case True
      have s1: "scaleSteps c (2 * x) = nat \<lceil>c / (2 * x)\<rceil>"
        using True unfolding scaleSteps_def by (rule if_P)
      have eq: "c / (2 * x) = ?a / 2" by simp
      have "\<lceil>?a / 2\<rceil> < \<lceil>?a\<rceil>" using a by (rule half)
      then have "\<lceil>c / (2 * x)\<rceil> < \<lceil>?a\<rceil>" by (simp only: eq)
      then show ?thesis unfolding s1 s2 using a2 by (simp add: zless_nat_conj)
    next
      case False
      have s1: "scaleSteps c (2 * x) = nat \<lceil>2 * x / c\<rceil> - 1"
        using False unfolding scaleSteps_def by (rule if_not_P)
      have "0 < c" using that by linarith
      then have "2 * x / c \<le> 2" using that by (simp add: divide_le_eq)
      then have "\<lceil>2 * x / c\<rceil> \<le> 2" by (simp add: ceiling_le_iff)
      then have "nat \<lceil>2 * x / c\<rceil> - 1 \<le> 1" by linarith
      moreover have "2 \<le> nat \<lceil>?a\<rceil>" using a2 by linarith
      ultimately show ?thesis unfolding s1 s2 by linarith
    qed
  qed
  have down: "scaleSteps c (x / 2) < scaleSteps c x" if "0 < c" "2 * c \<le> x" for x c :: real
  proof -
    let ?b = "x / c"
    have b: "2 \<le> ?b" using that by (simp add: le_divide_eq)
    then have b1: "1 < ?b" by linarith
    have b2: "2 \<le> \<lceil>?b\<rceil>" using b by linarith
    have h: "\<not> x / 2 < c" "\<not> x < c" using that by simp_all
    have s1: "scaleSteps c (x / 2) = nat \<lceil>x / 2 / c\<rceil> - 1"
      using h(1) unfolding scaleSteps_def by (rule if_not_P)
    have s2: "scaleSteps c x = nat \<lceil>?b\<rceil> - 1"
      using h(2) unfolding scaleSteps_def by (rule if_not_P)
    have e: "x / 2 / c = ?b / 2" by simp
    have "\<lceil>?b / 2\<rceil> < \<lceil>?b\<rceil>" using b1 by (rule half)
    then have lt: "\<lceil>x / 2 / c\<rceil> < \<lceil>?b\<rceil>" by (simp only: e)
    have "1 \<le> ?b / 2" using b by simp
    then have "1 \<le> \<lceil>?b / 2\<rceil>" by linarith
    then have ge: "1 \<le> \<lceil>x / 2 / c\<rceil>" by (simp only: e)
    show ?thesis unfolding s1 s2 using lt ge b2 by linarith
  qed
  show ?thesis
  proof (relation "measure (scaleSteps significandLow)")
    show "wf (measure (scaleSteps significandLow))" by simp
  next
    fix x :: real
    assume "\<not> x \<le> 0" "x < significandLow"
    then show "(2 * x, x) \<in> measure (scaleSteps significandLow)"
      by (simp add: up)
  next
    fix x :: real
    assume "\<not> x \<le> 0" "\<not> x < significandLow" "2 * significandLow \<le> x"
    moreover have "0 < significandLow" by (simp add: significandLow_def)
    ultimately show "(x / 2, x) \<in> measure (scaleSteps significandLow)"
      by (simp add: down)
  qed
qed

declare roundToDouble.simps [simp del]

text \<open>
  \<open>x.toFixed(2)\<close> for a double \<open>x\<close> at least 0, taken at its exact value: the integer \<open>n\<close> nearest to \<open>100 * x\<close> (the larger
  of two), its digits padded with zeros to three at least, and a point before the last
  two.
\<close>

definition toFixed2 :: "real \<Rightarrow> jstring" where
  "toFixed2 x =
     (let n = nat \<lfloor>x * 100 + 1 / 2\<rfloor>;
          m = decimalNat n;
          m = (if length m \<le> 2 then replicate (3 - length m) 0x30 @ m else m);
          k = length m
      in take (k - 2) m @ [0x2E] @ drop (k - 2) m)"

text \<open>A property of the statistics object holds a number or a string.\<close>

datatype jsvalue = Number real | String jstring

text \<open>
  The object \<open>getStats\<close> returns, without \<open>size\<close>, which is the statistics object of the
  library itself.
\<close>

record stats =
  stats_hits :: jsvalue
  stats_misses :: jsvalue
  hitRate :: jsvalue
  keys :: jsvalue

definition getStats :: "cache_state \<Rightarrow> stats" where
  "getStats st =
     \<lparr> stats_hits = Number (real (hits st)),
       stats_misses = Number (real (misses st)),
       hitRate =
         (if hits st + misses st > 0
          then String (toFixed2 (roundToDouble
                                   (roundToDouble (real (hits st) / real (hits st + misses st)) * 100))
                       @ js ''%'')
          else String (js ''0%'')),
       keys = Number (real (length (nc_keys (searchCache st)))) \<rparr>"

section \<open>Search orchestrator (advanced\_search.js)\<close>

text \<open>
  \<open>Array.prototype.sort(compareFn)\<close> is stable and, for a consistent comparator, returns
  the elements in the order of the comparator. It is modelled by a stable insertion
  sort: \<open>a\<close> stays before \<open>b\<close> when \<open>compareFn(a, b) \<le> 0\<close>.
\<close>

fun insertBy :: "('a \<Rightarrow> 'a \<Rightarrow> 'n::{zero,ord}) \<Rightarrow> 'a \<Rightarrow> 'a list \<Rightarrow> 'a list" where
  "insertBy compareFn x [] = [x]"
| "insertBy compareFn x (y # ys) =
     (if compareFn x y \<le> 0 then x # y # ys else y # insertBy compareFn x ys)"

definition sortWith :: "('a \<Rightarrow> 'a \<Rightarrow> 'n::{zero,ord}) \<Rightarrow> 'a list \<Rightarrow> 'a list" where
  "sortWith compareFn xs = foldr (insertBy compareFn) xs []"

text \<open>\<open>xs.slice(0, end)\<close>: a negative \<open>end\<close> counts from the end of the array.\<close>

definition slice0 :: "int \<Rightarrow> 'a list \<Rightarrow> 'a list" where
  "slice0 end xs =
     (let len = int (length xs);
          final = (if end < 0 then max (len + end) 0 else min end len)
      in take (nat final) xs)"

text \<open>\<open>/^\d+$/.test(s)\<close>: one ASCII digit at least and nothing else.\<close>

definition isNumeric :: "jstring \<Rightarrow> bool" where
  "isNumeric s \<longleftrightarrow> s \<noteq> [] \<and> (\<forall>c \<in> set s. 0x30 \<le> c \<and> c \<le> 0x39)"

text \<open>
  \<open>parseInt(s)\<close> for a string of ASCII digits: its decimal value (exact in JavaScript
  up to \<open>2^53\<close>).
\<close>

definition parseInt :: "jstring \<Rightarrow> int" where
  "parseInt s = foldl (\<lambda>acc c. acc * 10 + int (c - 0x30)) 0 s"

text \<open>
  The three sort modes. \<open>a.book_name.localeCompare(b.book_name)\<close> raises a TypeError on a
  row without a name; no such row reaches the sort, since \<open>scoreBook\<close> has read the name
  of every candidate before.
\<close>

definition nameOf :: "scored_book \<Rightarrow> jstring" where
  "nameOf a = (case book_name a of Some name \<Rightarrow> name | None \<Rightarrow> [])"

definition sortResults ::
  "(jstring \<Rightarrow> jstring \<Rightarrow> int) \<Rightarrow> jstring \<Rightarrow> scored_book list \<Rightarrow> error + scored_book list" where
  "sortResults localeCompare sortBy filteredBooks =
     (if sortBy = js ''popularity''
        then Inr (sortWith (\<lambda>a b. request_count b - request_count a) filteredBooks)
      else if sortBy = js ''name''
        then (if \<exists>a \<in> set filteredBooks. book_name a = None then Inl TypeError
              else Inr (sortWith (\<lambda>a b. localeCompare (nameOf a) (nameOf b)) filteredBooks))
      else Inr (sortWith (\<lambda>a b. score b - score a) filteredBooks))"

text \<open>
  \<open>allBooks\<close> is what \<open>db.all(sqlQuery, params)\<close> returned for the category and author of
  the options (\<open>None\<close> for a value that is no array); the database is not modelled.
  The function returns the rows or the exception, with the state of the cache module
  after the call. The \<open>catch\<close> block logs the exception and throws it again, also
  the one that \<open>searchCache.set\<close> lets through from a full store. A cached
  value is an array, which is truthy also when empty, so \<open>if (cachedResult)\<close> is the
  test for a hit.
\<close>

definition advancedSearch ::
  "(jstring \<Rightarrow> jstring) \<Rightarrow> (jstring \<Rightarrow> jstring \<Rightarrow> int) \<Rightarrow> config \<Rightarrow> book list option \<Rightarrow>
   jstring \<Rightarrow> options \<Rightarrow> cache_state \<Rightarrow> (error + row list) \<times> cache_state" where
  "advancedSearch toLowerCase localeCompare cfg allBooks query options st =
     (let sortBy = optSortBy options;
          limit = optLimit cfg options;
          normalizedQuery = normalizeQuery query;
          cacheKey = generateSearchKey normalizedQuery options;
          (cachedResult, st) = searchCache_get cfg cacheKey st
      in case cachedResult of
           Some rows \<Rightarrow> (Inr rows, st)
         | None \<Rightarrow>
             (case allBooks of
                None \<Rightarrow> (Inr [], st)
              | Some books \<Rightarrow>
                  if length books = 0 then (Inr [], st)
                  else
                    (case (if isNumeric normalizedQuery
                           then List.find (\<lambda>book. book_id book = parseInt normalizedQuery) books
                           else None) of
                       Some exactMatch \<Rightarrow>
                         (let result = [Plain exactMatch]
                          in case searchCache_set cfg cacheKey result None st of
                               Inl e \<Rightarrow> (Inl e, st)
                             | Inr (success, st) \<Rightarrow> (Inr result, st))
                     | None \<Rightarrow>
                         (case scoreAll toLowerCase cfg normalizedQuery books of
                            Inl e \<Rightarrow> (Inl e, st)
                          | Inr scoredBooks \<Rightarrow>
                              (let threshold = fuzzyThreshold cfg;
                                   filteredBooks =
                                     filter (\<lambda>book. score book \<ge> threshold) scoredBooks
                               in case sortResults localeCompare sortBy filteredBooks of
                                    Inl e \<Rightarrow> (Inl e, st)
                                  | Inr sortedBooks \<Rightarrow>
                                      (let results = map Scored (slice0 limit sortedBooks)
                                       in case searchCache_set cfg cacheKey results None st of
                                            Inl e \<Rightarrow> (Inl e, st)
                                          | Inr (success, st) \<Rightarrow> (Inr results, st)))))))"

section \<open>Auxiliary definitions for the proofs\<close>

text \<open>What the seven replacements of \<open>normalizePersianArabicChars\<close> do to one code unit.\<close>

definition foldUnit :: "code_unit \<Rightarrow> code_unit" where
  "foldUnit c =
     (let c = (if c \<in> set [0x6A9] then 0x643 else c);
          c = (if c \<in> set [0x6CC] then 0x64A else c);
          c = (if c \<in> set [0x649] then 0x64A else c);
          c = (if c \<in> set [0x626] then 0x64A else c);
          c = (if c \<in> set [0x624] then 0x648 else c);
          c = (if c \<in> set [0x625, 0x623, 0x622] then 0x627 else c);
          c = (if c \<in> set [0x629] then 0x647 else c)
      in c)"

definition variantSources :: "code_unit set" where
  "variantSources = {0x6A9, 0x6CC, 0x649, 0x626, 0x624, 0x625, 0x623, 0x622, 0x629}"

definition foreignDigits :: "code_unit set" where
  "foreignDigits = set arabicDigits \<union> set persianDigits"

text \<open>
  The recurrence that the cells of the table obey, and the invariant of the loops: the
  table has its shape, and the cells filled so far hold the value of the recurrence.
\<close>

fun levRec :: "jstring \<Rightarrow> jstring \<Rightarrow> nat \<Rightarrow> nat \<Rightarrow> nat" where
  "levRec s t 0 j = j"
| "levRec s t (Suc i) 0 = Suc i"
| "levRec s t (Suc i) (Suc j) =
     (if s ! i = t ! j then levRec s t i j
      else min (levRec s t i (Suc j)) (min (levRec s t (Suc i) j) (levRec s t i j)) + 1)"

definition wellFormed :: "nat \<Rightarrow> nat \<Rightarrow> table \<Rightarrow> bool" where
  "wellFormed m n dp \<longleftrightarrow> length dp = m + 1 \<and> (\<forall>r \<in> set dp. length r = n + 1)"

definition known :: "jstring \<Rightarrow> jstring \<Rightarrow> nat \<Rightarrow> nat \<Rightarrow> table \<Rightarrow> bool" where
  "known s t i k dp \<longleftrightarrow>
     wellFormed (length s) (length t) dp \<and>
     (\<forall>i' j'. i' \<le> length s \<and> j' \<le> length t \<and> (i' < i \<or> j' = 0 \<or> (i' = i \<and> j' < k))
        \<longrightarrow> dp ! i' ! j' = levRec s t i' j')"


text \<open>
  A reader for the JSON text of the options, the inverse of the writer: the value of a
  hexadecimal digit, the code unit behind a two-character escape, the string read up to
  its closing quote with what follows it, the decimal digits and their value, and the
  texts that start with a comma or a closing brace.
\<close>

definition unhexDigit :: "code_unit \<Rightarrow> nat" where
  "unhexDigit c = (if c \<le> 0x39 then c - 0x30 else c - 0x57)"

definition unescape :: "code_unit \<Rightarrow> code_unit" where
  "unescape e =
     (if e = 0x62 then 0x08 else if e = 0x74 then 0x09 else if e = 0x6E then 0x0A
      else if e = 0x66 then 0x0C else if e = 0x72 then 0x0D else e)"

fun unquoteUnits :: "jstring \<Rightarrow> (jstring \<times> jstring) option" where
  "unquoteUnits [] = None"
| "unquoteUnits (c # cs) =
     (if c = 0x22 then Some ([], cs)
      else if c \<noteq> 0x5C then map_option (apfst ((#) c)) (unquoteUnits cs)
      else (case cs of
              [] \<Rightarrow> None
            | e # r \<Rightarrow>
                if e \<noteq> 0x75 then map_option (apfst ((#) (unescape e))) (unquoteUnits r)
                else (case r of
                        h3 # h2 # h1 # h0 # r' \<Rightarrow>
                          map_option
                            (apfst ((#) (4096 * unhexDigit h3 + 256 * unhexDigit h2
                                          + 16 * unhexDigit h1 + unhexDigit h0)))
                            (unquoteUnits r')
                      | _ \<Rightarrow> None)))"

definition isDigit :: "code_unit \<Rightarrow> bool" where
  "isDigit c \<longleftrightarrow> 0x30 \<le> c \<and> c \<le> 0x39"

definition digitsValue :: "jstring \<Rightarrow> nat" where
  "digitsValue s = foldl (\<lambda>acc c. 10 * acc + (c - 0x30)) 0 s"

definition separated :: "jstring \<Rightarrow> bool" where
  "separated x \<longleftrightarrow> (case x of [] \<Rightarrow> False | c # t \<Rightarrow> c = 0x2C \<or> c = 0x7D)"

section \<open>Example data\<close>

text \<open>
  For running the model: \<open>toLowerCase\<close> on strings whose only cased letters are ASCII,
  a collation by code units, the two books and the query of the end-to-end example of
  the specification, a query that is the identifier 2 in Arabic-Indic digits, a row
  without a name, and four states of the cache module.
\<close>

definition asciiLowerCase :: "jstring \<Rightarrow> jstring" where
  "asciiLowerCase s = map (\<lambda>c. if 0x41 \<le> c \<and> c \<le> 0x5A then c + 0x20 else c) s"

fun compareUnits :: "jstring \<Rightarrow> jstring \<Rightarrow> int" where
  "compareUnits [] [] = 0"
| "compareUnits [] (y # ys) = -1"
| "compareUnits (x # xs) [] = 1"
| "compareUnits (x # xs) (y # ys) = (if x < y then -1 else if y < x then 1 else compareUnits xs ys)"

definition book1 :: book where
  "book1 = \<lparr> book_id = 1, file_path = None, emergency_file_path = None,
     book_name = Some [0x643, 0x62a, 0x627, 0x628, 0x20, 0x627, 0x644, 0x641, 0x642, 0x647],
     author_name = Some [0x645, 0x62d, 0x645, 0x62f], category = None,
     request_count = 5, total_requests = 5 \<rparr>"

definition book2 :: book where
  "book2 = \<lparr> book_id = 2, file_path = None, emergency_file_path = None,
     book_name = Some [0x641, 0x642, 0x647, 0x20, 0x627, 0x644, 0x645, 0x639, 0x627, 0x645, 0x644, 0x627, 0x62a],
     author_name = Some [0x639, 0x644, 0x64a], category = None,
     request_count = 50, total_requests = 50 \<rparr>"

definition emptyCache :: cache_state where
  "emptyCache = \<lparr> searchCache = [], hits = 0, misses = 0 \<rparr>"

definition exampleQuery :: jstring where
  "exampleQuery = [0x641, 0x642, 0x647]"

definition exampleRows :: "row list" where
  "exampleRows = [Scored (withScore book2 (73 / 100)), Scored (withScore book1 (27 / 50))]"


definition malformedBook :: book where
  "malformedBook = book2\<lparr>book_name := None\<rparr>"


definition halfHits :: cache_state where
  "halfHits = \<lparr> searchCache = [], hits = 1, misses = 1 \<rparr>"

definition exampleStats :: cache_state where
  "exampleStats = \<lparr> searchCache = [], hits = 23, misses = 137 \<rparr>"

section \<open>The normalizer is idempotent\<close>

lemma npac_eq: "normalizePersianArabicChars s = trim (map foldUnit s)"
  by (simp add: normalizePersianArabicChars_def replaceAll_def foldUnit_def[abs_def] comp_def Let_def)

lemma convert_map: "convertToEnglishDigits s = map convertDigit s"
  by (induction s) auto

lemma foldUnit_fix: "c \<notin> variantSources \<Longrightarrow> foldUnit c = c"
  by (simp add: foldUnit_def variantSources_def)

lemma foldUnit_clean: "foldUnit c \<notin> variantSources"
  by (simp add: foldUnit_def variantSources_def)

lemma foldUnit_ws: "isWhiteSpace (foldUnit c) = isWhiteSpace c"
  by (simp add: foldUnit_def isWhiteSpace_def)

lemma foldUnit_digit: "foldUnit c \<in> foreignDigits \<longleftrightarrow> c \<in> foreignDigits"
  by (simp add: foldUnit_def foreignDigits_def arabicDigits_def persianDigits_def)

lemma indexOf_notin: "indexOf ds c = -1 \<longleftrightarrow> c \<notin> set ds"
  and indexOf_range: "c \<in> set ds \<Longrightarrow> 0 \<le> indexOf ds c \<and> indexOf ds c < int (length ds)"
   apply (induction ds) apply (auto simp: Let_def) done

lemma indexOf_ge: "-1 \<le> indexOf ds c"
  by (induction ds) (auto simp: Let_def)

lemma convertDigit_fix: "c \<notin> foreignDigits \<Longrightarrow> convertDigit c = c"
  by (simp add: convertDigit_def foreignDigits_def indexOf_notin Let_def)

lemma convertDigit_english: "c \<in> foreignDigits \<Longrightarrow> convertDigit c \<in> set englishDigits"
proof -
  assume c: "c \<in> foreignDigits"
  have nth: "\<And>i. 0 \<le> i \<Longrightarrow> i < 10 \<Longrightarrow> englishDigits ! nat i \<in> set englishDigits"
  proof -
    fix i :: int assume "0 \<le> i" "i < 10"
    then have "nat i < length englishDigits" by (simp add: englishDigits_def)
    then show "englishDigits ! nat i \<in> set englishDigits" by (rule nth_mem)
  qed
  show ?thesis
  proof (cases "c \<in> set arabicDigits")
    case True
    from indexOf_range[OF True] have "0 \<le> indexOf arabicDigits c" "indexOf arabicDigits c < 10"
      by (simp_all add: arabicDigits_def)
    then show ?thesis using nth by (simp add: convertDigit_def Let_def)
  next
    case False
    with c have p: "c \<in> set persianDigits" by (simp add: foreignDigits_def)
    from indexOf_range[OF p] have "0 \<le> indexOf persianDigits c" "indexOf persianDigits c < 10"
      by (simp_all add: persianDigits_def)
    then show ?thesis using nth False p by (simp add: convertDigit_def Let_def indexOf_notin)
  qed
qed

lemma english_plain:
  "d \<in> set englishDigits \<Longrightarrow> d \<notin> foreignDigits \<and> d \<notin> variantSources \<and> \<not> isWhiteSpace d"
  by (auto simp: englishDigits_def foreignDigits_def arabicDigits_def persianDigits_def
      variantSources_def isWhiteSpace_def)

lemma foreign_not_ws: "c \<in> foreignDigits \<Longrightarrow> \<not> isWhiteSpace c"
  by (auto simp: foreignDigits_def arabicDigits_def persianDigits_def isWhiteSpace_def)

lemma convertDigit_idem: "convertDigit (convertDigit c) = convertDigit c"
  by (cases "c \<in> foreignDigits")
     (auto simp: convertDigit_fix dest!: convertDigit_english english_plain)

lemma convertDigit_ws: "isWhiteSpace (convertDigit c) = isWhiteSpace c"
  by (cases "c \<in> foreignDigits")
     (auto simp: convertDigit_fix foreign_not_ws dest!: convertDigit_english english_plain)

lemma foldUnit_convertDigit: "foldUnit (convertDigit (foldUnit c)) = convertDigit (foldUnit c)"
proof (cases "foldUnit c \<in> foreignDigits")
  case True
  from english_plain[OF convertDigit_english[OF True]] show ?thesis
    by (simp add: foldUnit_fix)
next
  case False
  then show ?thesis by (simp add: convertDigit_fix foldUnit_fix foldUnit_clean)
qed

lemma trim_map:
  assumes "\<And>c. isWhiteSpace (f c) = isWhiteSpace c"
  shows "trim (map f s) = map f (trim s)"
  using assms by (simp add: trim_def dropWhile_map rev_map comp_def)

lemma dropWhile_rev_dropWhile:
  "dropWhile P (rev (dropWhile P (rev (dropWhile P s)))) = rev (dropWhile P (rev (dropWhile P s)))"
proof (cases "dropWhile P s")
  case Nil
  then show ?thesis by (simp del: dropWhile_eq_Nil_conv)
next
  case (Cons a as)
  then have na: "\<not> P a" using hd_dropWhile[of P s] by auto
  have "\<exists>bs. rev (dropWhile P (rev (a # as))) = a # bs"
  proof -
    have "dropWhile P (rev as @ [a]) = dropWhile P (rev as) @ [a]"
      using na by (simp add: dropWhile_append3)
    then show ?thesis by simp
  qed
  then show ?thesis using Cons na by auto
qed

lemma trim_idem: "trim (trim s) = trim s"
  by (simp add: trim_def dropWhile_rev_dropWhile)

text \<open>
  C7. The normalizer, character folding with its trim followed by digit folding, is
  idempotent: normalizing a normalized string changes nothing.
\<close>

theorem normalizeQuery_idempotent: "normalizeQuery (normalizeQuery s) = normalizeQuery s"
proof -
  let ?t = "trim (map foldUnit s)"
  let ?u = "map convertDigit ?t"
  have t: "?t = map foldUnit (trim s)"
    by (rule trim_map) (rule foldUnit_ws)
  have 1: "map foldUnit ?u = ?u"
    unfolding t by (simp add: foldUnit_convertDigit)
  have "trim ?u = map convertDigit (trim ?t)"
    by (rule trim_map) (rule convertDigit_ws)
  then have 2: "trim ?u = ?u"
    by (simp only: trim_idem)
  have 3: "map convertDigit ?u = ?u"
    by (simp add: convertDigit_idem)
  have "normalizeQuery s = ?u"
    by (simp only: normalizeQuery_def npac_eq convert_map)
  moreover have "normalizeQuery ?u = map convertDigit (trim (map foldUnit ?u))"
    by (simp only: normalizeQuery_def npac_eq convert_map)
  ultimately show ?thesis
    by (simp only: 1 2 3)
qed

section \<open>The table of the Levenshtein distance\<close>

lemma levRec_0_right [simp]: "levRec s t i 0 = i"
  by (cases i) auto

lemma levRec_sym: "levRec s t i j = levRec t s j i"
  by (induction s t i j rule: levRec.induct) (auto simp: min.commute min.left_commute)

lemma levRec_le_max: "levRec s t i j \<le> max i j"
  by (induction s t i j rule: levRec.induct) auto

lemma setCell_wellFormed: "wellFormed m n dp \<Longrightarrow> i \<le> m \<Longrightarrow> wellFormed m n (setCell dp i j v)"
  unfolding wellFormed_def setCell_def
  by (auto dest!: set_update_subset_insert[THEN subsetD])

lemma setCell_nth:
  "wellFormed m n dp \<Longrightarrow> i \<le> m \<Longrightarrow> j \<le> n \<Longrightarrow> i' \<le> m \<Longrightarrow> j' \<le> n \<Longrightarrow>
   setCell dp i j v ! i' ! j' = (if i' = i \<and> j' = j then v else dp ! i' ! j')"
  unfolding wellFormed_def setCell_def
  by (auto simp: nth_list_update)

lemma initColumn_steps:
  "wellFormed m n dp \<Longrightarrow> k \<le> m + 1 \<Longrightarrow>
   wellFormed m n (fold (\<lambda>i dp. setCell dp i 0 i) [0..<k] dp) \<and>
   (\<forall>i < k. fold (\<lambda>i dp. setCell dp i 0 i) [0..<k] dp ! i ! 0 = i)"
proof (induction k)
  case 0
  then show ?case by simp
next
  case (Suc k)
  let ?d = "fold (\<lambda>i dp. setCell dp i 0 i) [0..<k] dp"
  from Suc have wf: "wellFormed m n ?d" and old: "\<forall>i < k. ?d ! i ! 0 = i" and k: "k \<le> m"
    by simp_all
  have "wellFormed m n (setCell ?d k 0 k)"
    using wf k by (rule setCell_wellFormed)
  moreover have "\<forall>i < Suc k. setCell ?d k 0 k ! i ! 0 = i"
    using old k by (auto simp: setCell_nth[OF wf] less_Suc_eq)
  ultimately show ?case by simp
qed

lemma initRow_steps:
  "wellFormed m n dp \<Longrightarrow> k \<le> n + 1 \<Longrightarrow>
   wellFormed m n (fold (\<lambda>j dp. setCell dp 0 j j) [0..<k] dp) \<and>
   (\<forall>j < k. fold (\<lambda>j dp. setCell dp 0 j j) [0..<k] dp ! 0 ! j = j) \<and>
   (\<forall>i j. 0 < i \<and> i \<le> m \<and> j \<le> n \<longrightarrow>
      fold (\<lambda>j dp. setCell dp 0 j j) [0..<k] dp ! i ! j = dp ! i ! j)"
proof (induction k)
  case 0
  then show ?case by simp
next
  case (Suc k)
  let ?d = "fold (\<lambda>j dp. setCell dp 0 j j) [0..<k] dp"
  from Suc have wf: "wellFormed m n ?d" and old: "\<forall>j < k. ?d ! 0 ! j = j"
    and rest: "\<forall>i j. 0 < i \<and> i \<le> m \<and> j \<le> n \<longrightarrow> ?d ! i ! j = dp ! i ! j" and k: "k \<le> n"
    by simp_all
  have "wellFormed m n (setCell ?d 0 k k)"
    using wf by (rule setCell_wellFormed) simp
  moreover have "\<forall>j < Suc k. setCell ?d 0 k k ! 0 ! j = j"
    using old k by (auto simp: setCell_nth[OF wf] less_Suc_eq)
  moreover have "\<forall>i j. 0 < i \<and> i \<le> m \<and> j \<le> n \<longrightarrow> setCell ?d 0 k k ! i ! j = dp ! i ! j"
    using rest k by (auto simp: setCell_nth[OF wf])
  ultimately show ?case by simp
qed

lemma known_init:
  "known s t 1 1 (initRow (length t) (initColumn (length s)
      (replicate (length s + 1) (replicate (length t + 1) 0))))"
proof -
  let ?m = "length s" and ?n = "length t"
  let ?d0 = "replicate (?m + 1) (replicate (?n + 1) (0::nat))"
  have wf0: "wellFormed ?m ?n ?d0" by (simp add: wellFormed_def)
  from initColumn_steps[OF wf0, of "?m + 1"]
  have wf1: "wellFormed ?m ?n (initColumn ?m ?d0)"
    and col: "\<forall>i \<le> ?m. initColumn ?m ?d0 ! i ! 0 = i"
    by (simp_all add: initColumn_def less_Suc_eq_le)
  from initRow_steps[OF wf1, of "?n + 1"]
  have wf2: "wellFormed ?m ?n (initRow ?n (initColumn ?m ?d0))"
    and row: "\<forall>j \<le> ?n. initRow ?n (initColumn ?m ?d0) ! 0 ! j = j"
    and rest: "\<forall>i j. 0 < i \<and> i \<le> ?m \<and> j \<le> ?n \<longrightarrow>
      initRow ?n (initColumn ?m ?d0) ! i ! j = initColumn ?m ?d0 ! i ! j"
    by (simp_all add: initRow_def less_Suc_eq_le)
  show ?thesis
    unfolding known_def
  proof (intro conjI allI impI)
    show "wellFormed ?m ?n (initRow ?n (initColumn ?m ?d0))" by (rule wf2)
  next
    fix i' j'
    assume a: "i' \<le> ?m \<and> j' \<le> ?n \<and> (i' < 1 \<or> j' = 0 \<or> i' = 1 \<and> j' < 1)"
    show "initRow ?n (initColumn ?m ?d0) ! i' ! j' = levRec s t i' j'"
    proof (cases "i' = 0")
      case True
      with a row show ?thesis by simp
    next
      case False
      with a have "j' = 0" by auto
      with False a rest col show ?thesis by simp
    qed
  qed
qed

lemma fillCell_known:
  assumes kn: "known s t i j dp" and i: "1 \<le> i" "i \<le> length s" and j: "1 \<le> j" "j \<le> length t"
  shows "known s t i (Suc j) (fillCell s t i j dp)"
proof -
  let ?m = "length s" and ?n = "length t"
  from kn have wf: "wellFormed ?m ?n dp"
    and val: "\<And>i' j'. i' \<le> ?m \<Longrightarrow> j' \<le> ?n \<Longrightarrow> i' < i \<or> j' = 0 \<or> (i' = i \<and> j' < j)
        \<Longrightarrow> dp ! i' ! j' = levRec s t i' j'"
    by (auto simp: known_def)
  obtain a b where ab: "i = Suc a" "j = Suc b" using i j by (cases i; cases j) auto
  have r1: "dp ! a ! b = levRec s t a b" using val[of a b] i j ab by simp
  have r2: "dp ! a ! j = levRec s t a j" using val[of a j] i j ab by simp
  have r3: "dp ! i ! b = levRec s t i b" using val[of i b] i j ab by simp
  let ?v = "levRec s t i j"
  have fc: "fillCell s t i j dp = setCell dp i j ?v"
    using r1 r2 r3 by (simp add: fillCell_def ab)
  have wf': "wellFormed ?m ?n (setCell dp i j ?v)"
    using wf i(2) by (rule setCell_wellFormed)
  show ?thesis
    unfolding known_def fc
  proof (intro conjI allI impI)
    show "wellFormed ?m ?n (setCell dp i j ?v)" by (rule wf')
  next
    fix i' j'
    assume a: "i' \<le> ?m \<and> j' \<le> ?n \<and> (i' < i \<or> j' = 0 \<or> i' = i \<and> j' < Suc j)"
    show "setCell dp i j ?v ! i' ! j' = levRec s t i' j'"
    proof (cases "i' = i \<and> j' = j")
      case True
      then show ?thesis using a by (simp add: setCell_nth[OF wf i(2) j(2)])
    next
      case False
      with a have "i' < i \<or> j' = 0 \<or> (i' = i \<and> j' < j)" by auto
      with val[of i' j'] a have "dp ! i' ! j' = levRec s t i' j'" by simp
      then show ?thesis using a False by (simp add: setCell_nth[OF wf i(2) j(2)])
    qed
  qed
qed

lemma fillRow_steps:
  assumes kn: "known s t i 1 dp" and i: "1 \<le> i" "i \<le> length s"
  shows "k \<le> length t \<Longrightarrow> known s t i (Suc k) (fold (\<lambda>j dp. fillCell s t i j dp) [1..<Suc k] dp)"
proof (induction k)
  case 0
  then show ?case using kn by simp
next
  case (Suc k)
  then have "known s t i (Suc k) (fold (\<lambda>j dp. fillCell s t i j dp) [1..<Suc k] dp)" by simp
  from fillCell_known[OF this i, of ] Suc.prems
  show ?case by simp
qed

lemma known_next_row:
  assumes "known s t i (Suc (length t)) dp"
  shows "known s t (Suc i) 1 dp"
  unfolding known_def
proof (intro conjI allI impI)
  show "wellFormed (length s) (length t) dp" using assms by (simp add: known_def)
next
  fix i' j'
  assume a: "i' \<le> length s \<and> j' \<le> length t \<and> (i' < Suc i \<or> j' = 0 \<or> i' = Suc i \<and> j' < 1)"
  then have "i' < i \<or> j' = 0 \<or> (i' = i \<and> j' < Suc (length t))" by auto
  with a assms show "dp ! i' ! j' = levRec s t i' j'" unfolding known_def by blast
qed

lemma fillRow_known:
  assumes "known s t i 1 dp" "1 \<le> i" "i \<le> length s"
  shows "known s t (Suc i) 1 (fillRow s t i dp)"
proof -
  have "known s t i (Suc (length t)) (fillRow s t i dp)"
    using fillRow_steps[OF assms, of "length t"] by (simp add: fillRow_def del: upt_Suc)
  then show ?thesis by (rule known_next_row)
qed

lemma fillTable_steps:
  assumes kn: "known s t 1 1 dp"
  shows "k \<le> length s \<Longrightarrow> known s t (Suc k) 1 (fold (\<lambda>i dp. fillRow s t i dp) [1..<Suc k] dp)"
proof (induction k)
  case 0
  then show ?case using kn by simp
next
  case (Suc k)
  then have "known s t (Suc k) 1 (fold (\<lambda>i dp. fillRow s t i dp) [1..<Suc k] dp)" by simp
  from fillRow_known[OF this] Suc.prems
  show ?case by simp
qed

text \<open>
  The three loops fill the table with the values of the recurrence, so the function
  returns the value of the recurrence at the two lengths.
\<close>

lemma levenshteinDistance_levRec:
  "levenshteinDistance s t = levRec s t (length s) (length t)"
proof -
  let ?d = "initRow (length t) (initColumn (length s)
      (replicate (length s + 1) (replicate (length t + 1) 0)))"
  from fillTable_steps[OF known_init, of "length s" s t]
  have "known s t (Suc (length s)) 1 (fillTable s t ?d)"
    by (simp add: fillTable_def del: upt_Suc)
  then have "fillTable s t ?d ! length s ! length t = levRec s t (length s) (length t)"
    by (simp add: known_def)
  then show ?thesis by (simp add: levenshteinDistance_def Let_def)
qed

lemma levenshteinDistance_sym: "levenshteinDistance s t = levenshteinDistance t s"
  by (simp add: levenshteinDistance_levRec levRec_sym[of s t])

lemma levenshteinDistance_le: "levenshteinDistance s t \<le> max (length s) (length t)"
  by (simp only: levenshteinDistance_levRec levRec_le_max)

section \<open>Similarity and score\<close>

text \<open>
  C10. The similarity of two strings does not depend on their order: every branch of
  \<open>calculateSimilarity\<close> tests both directions, and the distance and the longer length
  are symmetric.
\<close>

theorem calculateSimilarity_symmetric:
  "calculateSimilarity toLowerCase a b = calculateSimilarity toLowerCase b a"
proof -
  let ?s1 = "toLowerCase a" and ?s2 = "toLowerCase b"
  have d: "levenshteinDistance ?s1 ?s2 = levenshteinDistance ?s2 ?s1"
    by (rule levenshteinDistance_sym)
  have m: "max (length ?s1) (length ?s2) = max (length ?s2) (length ?s1)"
    by (rule max.commute)
  have e: "?s1 = ?s2 \<longleftrightarrow> ?s2 = ?s1" by (rule eq_commute)
  have p: "startsWith ?s1 ?s2 \<or> startsWith ?s2 ?s1 \<longleftrightarrow> startsWith ?s2 ?s1 \<or> startsWith ?s1 ?s2"
    by (rule disj_commute)
  have i: "includesStr ?s1 ?s2 \<or> includesStr ?s2 ?s1 \<longleftrightarrow> includesStr ?s2 ?s1 \<or> includesStr ?s1 ?s2"
    by (rule disj_commute)
  show ?thesis
    unfolding calculateSimilarity_def Let_def d m p i
    by (simp add: eq_commute[of ?s1 ?s2])
qed

lemma calculateSimilarity_range:
  "0 \<le> calculateSimilarity toLowerCase a b \<and> calculateSimilarity toLowerCase a b \<le> 1"
proof -
  let ?s1 = "toLowerCase a" and ?s2 = "toLowerCase b"
  let ?d = "levenshteinDistance ?s1 ?s2" and ?l = "max (length ?s1) (length ?s2)"
  have "?d \<le> ?l" by (rule levenshteinDistance_le)
  then have le: "real ?d \<le> real ?l" by (simp only: of_nat_le_iff)
  have frac: "0 \<le> real ?d / real ?l \<and> real ?d / real ?l \<le> 1"
  proof (cases "?l = 0")
    case True
    then show ?thesis by simp
  next
    case False
    then have "0 < real ?l" by (simp only: of_nat_0_less_iff neq0_conv)
    with le show ?thesis by (simp only: divide_le_eq_1_pos) simp
  qed
  then show ?thesis
    by (simp add: calculateSimilarity_def Let_def)
qed

lemma scoreBook_value:
  assumes "book_name b = Some name" "author_name b = Some author"
  shows "scoreBook toLowerCase cfg b q =
    Inr (calculateSimilarity toLowerCase (normalizePersianArabicChars (toLowerCase name))
           (normalizePersianArabicChars (toLowerCase q)) * weights_bookName cfg
       + calculateSimilarity toLowerCase (normalizePersianArabicChars (toLowerCase author))
           (normalizePersianArabicChars (toLowerCase q)) * weights_authorName cfg
       + min (real_of_int (request_count b) / 100) 0.1)"
  using assms by (simp add: scoreBook_def Let_def)

lemma scoreBook_Inr:
  "scoreBook toLowerCase cfg b q = Inr v \<Longrightarrow>
   \<exists>name author. book_name b = Some name \<and> author_name b = Some author"
  by (auto simp: scoreBook_def Let_def split: option.splits)

text \<open>
  C8. For a book with a request count of at least 0: the distance is at most the longer
  length, every similarity is between 0 and 1, and when the book has a name and an
  author the score is the weighted sum of the two similarities, between 0 and 1, plus
  the boost, between 0 and 0.1; every score \<open>scoreBook\<close> returns is between 0 and 1.1.
\<close>

theorem scoreBook_range:
  assumes rc: "0 \<le> request_count b"
  shows "(\<forall>x y. levenshteinDistance x y \<le> max (length x) (length y))
       \<and> (\<forall>x y. 0 \<le> calculateSimilarity toLowerCase x y
                \<and> calculateSimilarity toLowerCase x y \<le> 1)
       \<and> (\<forall>name author. book_name b = Some name \<and> author_name b = Some author \<longrightarrow>
             (\<exists>sn sa.
                sn = calculateSimilarity toLowerCase
                       (normalizePersianArabicChars (toLowerCase name))
                       (normalizePersianArabicChars (toLowerCase q)) \<and>
                sa = calculateSimilarity toLowerCase
                       (normalizePersianArabicChars (toLowerCase author))
                       (normalizePersianArabicChars (toLowerCase q)) \<and>
                0 \<le> sn * 0.7 + sa * 0.3 \<and> sn * 0.7 + sa * 0.3 \<le> 1 \<and>
                0 \<le> min (real_of_int (request_count b) / 100) 0.1 \<and>
                min (real_of_int (request_count b) / 100) 0.1 \<le> 0.1 \<and>
                scoreBook toLowerCase config b q
                  = Inr (sn * 0.7 + sa * 0.3 + min (real_of_int (request_count b) / 100) 0.1)))
       \<and> (\<forall>v. scoreBook toLowerCase config b q = Inr v \<longrightarrow> 0 \<le> v \<and> v \<le> 1.1)"
proof -
  have sim: "\<And>x y. 0 \<le> calculateSimilarity toLowerCase x y
                \<and> calculateSimilarity toLowerCase x y \<le> 1"
    by (rule calculateSimilarity_range)
  have p: "0 \<le> min (real_of_int (request_count b) / 100) 0.1"
    "min (real_of_int (request_count b) / 100) 0.1 \<le> 0.1"
    using rc by simp_all
  have present: "\<forall>name author. book_name b = Some name \<and> author_name b = Some author \<longrightarrow>
             (\<exists>sn sa.
                sn = calculateSimilarity toLowerCase
                       (normalizePersianArabicChars (toLowerCase name))
                       (normalizePersianArabicChars (toLowerCase q)) \<and>
                sa = calculateSimilarity toLowerCase
                       (normalizePersianArabicChars (toLowerCase author))
                       (normalizePersianArabicChars (toLowerCase q)) \<and>
                0 \<le> sn * 0.7 + sa * 0.3 \<and> sn * 0.7 + sa * 0.3 \<le> 1 \<and>
                0 \<le> min (real_of_int (request_count b) / 100) 0.1 \<and>
                min (real_of_int (request_count b) / 100) 0.1 \<le> 0.1 \<and>
                scoreBook toLowerCase config b q
                  = Inr (sn * 0.7 + sa * 0.3 + min (real_of_int (request_count b) / 100) 0.1))"
  proof (intro allI impI)
    fix name author
    assume n: "book_name b = Some name \<and> author_name b = Some author"
    let ?q = "normalizePersianArabicChars (toLowerCase q)"
    let ?sn = "calculateSimilarity toLowerCase (normalizePersianArabicChars (toLowerCase name)) ?q"
    let ?sa = "calculateSimilarity toLowerCase (normalizePersianArabicChars (toLowerCase author)) ?q"
    have x: "0 \<le> ?sn" "?sn \<le> 1" and y: "0 \<le> ?sa" "?sa \<le> 1"
      using sim by blast+
    have w: "0 \<le> ?sn * 0.7 + ?sa * 0.3" "?sn * 0.7 + ?sa * 0.3 \<le> 1"
      using x y by simp_all
    have v: "scoreBook toLowerCase config b q
               = Inr (?sn * 0.7 + ?sa * 0.3 + min (real_of_int (request_count b) / 100) 0.1)"
      using n scoreBook_value[of b name author toLowerCase config q] by (simp add: config_def)
    from w p v show "\<exists>sn sa.
                sn = ?sn \<and> sa = ?sa \<and>
                0 \<le> sn * 0.7 + sa * 0.3 \<and> sn * 0.7 + sa * 0.3 \<le> 1 \<and>
                0 \<le> min (real_of_int (request_count b) / 100) 0.1 \<and>
                min (real_of_int (request_count b) / 100) 0.1 \<le> 0.1 \<and>
                scoreBook toLowerCase config b q
                  = Inr (sn * 0.7 + sa * 0.3 + min (real_of_int (request_count b) / 100) 0.1)"
      by blast
  qed
  have range: "\<forall>v. scoreBook toLowerCase config b q = Inr v \<longrightarrow> 0 \<le> v \<and> v \<le> 1.1"
  proof (intro allI impI)
    fix v assume v: "scoreBook toLowerCase config b q = Inr v"
    from scoreBook_Inr[OF v] obtain name author
      where n: "book_name b = Some name \<and> author_name b = Some author" by blast
    with present obtain sn sa where
      "0 \<le> sn * 0.7 + sa * 0.3" "sn * 0.7 + sa * 0.3 \<le> 1"
      "scoreBook toLowerCase config b q
         = Inr (sn * 0.7 + sa * 0.3 + min (real_of_int (request_count b) / 100) 0.1)"
      by blast
    with v p show "0 \<le> v \<and> v \<le> 1.1" by simp
  qed
  from sim present range show ?thesis
    using levenshteinDistance_le by blast
qed

theorem scoreBook_range_witness:
  "0 \<le> request_count book1
   \<and> (\<exists>v. scoreBook asciiLowerCase config book1 exampleQuery = Inr v \<and> 0 \<le> v \<and> v \<le> 1.1)"
proof -
  have rc: "0 \<le> request_count book1" by (simp add: book1_def)
  have "book_name book1 \<noteq> None \<and> author_name book1 \<noteq> None" by (simp add: book1_def)
  with scoreBook_range[OF rc, of asciiLowerCase exampleQuery] rc
  show ?thesis by blast
qed

section \<open>Decimal digits\<close>

lemma decimalNat_small: "n < 10 \<Longrightarrow> decimalNat n = [0x30 + n]"
  by (subst decimalNat.simps) simp

lemma decimalNat_step: "10 \<le> n \<Longrightarrow> decimalNat n = decimalNat (n div 10) @ [0x30 + n mod 10]"
  by (subst decimalNat.simps) simp

lemma decimalNat_two:
  "100 \<le> n \<Longrightarrow> decimalNat n = decimalNat (n div 100) @ [0x30 + n div 10 mod 10, 0x30 + n mod 10]"
proof -
  assume n: "100 \<le> n"
  then have "10 \<le> n div 10" by simp
  from decimalNat_step[OF this] have "decimalNat (n div 10) = decimalNat (n div 100) @ [0x30 + n div 10 mod 10]"
    by (simp add: div_mult2_eq[symmetric])
  moreover from n have "decimalNat n = decimalNat (n div 10) @ [0x30 + n mod 10]"
    by (intro decimalNat_step) simp
  ultimately show ?thesis by simp
qed

lemma decimalNat_nonempty: "decimalNat n \<noteq> []"
  by (subst decimalNat.simps) simp


lemma decimalNat_digits: "\<forall>c\<in>set (decimalNat n). isDigit c"
proof (induction n rule: decimalNat.induct)
  case (1 n)
  show ?case
  proof (cases "n < 10")
    case True
    then show ?thesis by (simp add: decimalNat_small isDigit_def)
  next
    case False
    then have s: "decimalNat n = decimalNat (n div 10) @ [0x30 + n mod 10]"
      by (simp add: decimalNat_step)
    have "n mod 10 < 10" by simp
    then have "isDigit (0x30 + n mod 10)" unfolding isDigit_def by linarith
    with 1[OF False] show ?thesis unfolding s by simp
  qed
qed

lemma digitsValue_snoc: "digitsValue (s @ [c]) = 10 * digitsValue s + (c - 0x30)"
  by (simp add: digitsValue_def)

lemma digitsValue_decimalNat: "digitsValue (decimalNat n) = n"
proof (induction n rule: decimalNat.induct)
  case (1 n)
  show ?case
  proof (cases "n < 10")
    case True
    then show ?thesis by (simp add: decimalNat_small digitsValue_def)
  next
    case False
    then have s: "decimalNat n = decimalNat (n div 10) @ [0x30 + n mod 10]"
      by (simp add: decimalNat_step)
    from 1[OF False] show ?thesis unfolding s digitsValue_snoc by simp
  qed
qed

lemma separated_no_digit: "separated x \<Longrightarrow> takeWhile isDigit x = []"
  by (cases x) (auto simp: separated_def isDigit_def)

lemma decimalNat_token:
  assumes "separated x"
  shows "takeWhile isDigit (decimalNat n @ x) = decimalNat n"
    and "dropWhile isDigit (decimalNat n @ x) = x"
proof -
  from assms obtain c t where x: "x = c # t" and c: "\<not> isDigit c"
    by (cases x) (auto simp: separated_def isDigit_def)
  have d: "\<And>c. c \<in> set (decimalNat n) \<Longrightarrow> isDigit c"
    using decimalNat_digits by blast
  show "takeWhile isDigit (decimalNat n @ x) = decimalNat n"
    unfolding x using c d by (simp add: takeWhile_append2 takeWhile_tail)
  show "dropWhile isDigit (decimalNat n @ x) = x"
    unfolding x using c d by (simp add: dropWhile_append2)
qed

lemma decimalNat_unique:
  assumes eq: "decimalNat n @ x = decimalNat m @ y" and x: "separated x" and y: "separated y"
  shows "n = m \<and> x = y"
proof -
  from eq have "takeWhile isDigit (decimalNat n @ x) = takeWhile isDigit (decimalNat m @ y)"
    by simp
  then have "decimalNat n = decimalNat m"
    by (simp only: decimalNat_token(1)[OF x] decimalNat_token(1)[OF y])
  then have "digitsValue (decimalNat n) = digitsValue (decimalNat m)" by simp
  then have "n = m" by (simp only: digitsValue_decimalNat)
  moreover from eq have "dropWhile isDigit (decimalNat n @ x) = dropWhile isDigit (decimalNat m @ y)"
    by simp
  then have "x = y"
    by (simp only: decimalNat_token(2)[OF x] decimalNat_token(2)[OF y])
  ultimately show ?thesis by blast
qed

lemma decimalNat_head: "\<exists>c t. decimalNat n = c # t \<and> isDigit c"
proof -
  obtain c t where ct: "decimalNat n = c # t"
    using decimalNat_nonempty[of n] by (cases "decimalNat n") auto
  then have "c \<in> set (decimalNat n)" by simp
  with decimalNat_digits have "isDigit c" by blast
  with ct show ?thesis by blast
qed

lemma decimalInt_unique:
  assumes eq: "decimalInt n @ x = decimalInt m @ y" and x: "separated x" and y: "separated y"
  shows "n = m \<and> x = y"
proof -
  consider (neg) "n < 0" "m < 0" | (nm) "n < 0" "\<not> m < 0" | (mn) "\<not> n < 0" "m < 0"
    | (pos) "\<not> n < 0" "\<not> m < 0"
    by blast
  then show ?thesis
  proof cases
    case neg
    with eq have "decimalNat (nat (- n)) @ x = decimalNat (nat (- m)) @ y"
      by (simp add: decimalInt_def)
    from decimalNat_unique[OF this x y] neg show ?thesis by linarith
  next
    case nm
    obtain c t where "decimalNat (nat m) = c # t" "isDigit c"
      using decimalNat_head by blast
    with eq nm show ?thesis by (auto simp: decimalInt_def isDigit_def)
  next
    case mn
    obtain c t where "decimalNat (nat n) = c # t" "isDigit c"
      using decimalNat_head by blast
    with eq mn show ?thesis by (auto simp: decimalInt_def isDigit_def)
  next
    case pos
    with eq have "decimalNat (nat n) @ x = decimalNat (nat m) @ y"
      by (simp add: decimalInt_def)
    from decimalNat_unique[OF this x y] pos show ?thesis by linarith
  qed
qed

section \<open>Sorting\<close>

lemma set_insertBy: "set (insertBy c x ys) = insert x (set ys)"
  by (induction ys) auto

lemma set_sortWith: "set (sortWith c xs) = set xs"
  by (induction xs) (auto simp: sortWith_def set_insertBy)




lemma set_slice0: "set (slice0 n xs) \<subseteq> set xs"
  by (simp add: slice0_def Let_def set_take_subset)




lemma sortResults_set: "sortResults localeCompare sortBy xs = Inr ys \<Longrightarrow> set ys = set xs"
  by (auto simp: sortResults_def set_sortWith split: if_splits)





section \<open>The paths of the orchestrator\<close>

lemma withScore_simps [simp]:
  "score (withScore b s) = s"
  "book_name (withScore b s) = book_name b"
  "author_name (withScore b s) = author_name b"
  "request_count (withScore b s) = request_count b"
  "book_id (withScore b s) = book_id b"
  by (simp_all add: withScore_def book.defs scored_book.defs)

lemma withScore_inject: "withScore b s = withScore b' s' \<longleftrightarrow> b = b' \<and> s = s'"
  by (cases b; cases b') (auto simp: withScore_def book.defs scored_book.defs)

lemma withScore_names [simp]:
  "nameOf (withScore b s) = (case book_name b of Some name \<Rightarrow> name | None \<Rightarrow> [])"
  by (simp add: nameOf_def)

lemma scoreAll_members:
  "scoreAll lc cfg q books = Inr sc \<Longrightarrow>
   \<forall>sb \<in> set sc. \<exists>b \<in> set books. \<exists>s. scoreBook lc cfg b q = Inr s \<and> sb = withScore b s"
  by (induction books arbitrary: sc) (fastforce split: sum.splits)+

lemma scoreAll_Inl:
  "b \<in> set books \<Longrightarrow> scoreBook lc cfg b q = Inl e \<Longrightarrow> \<exists>e'. scoreAll lc cfg q books = Inl e'"
  by (induction books) (auto split: sum.splits)

lemma scoreAll_total:
  "\<forall>b \<in> set books. \<exists>s. scoreBook lc cfg b q = Inr s \<Longrightarrow> \<exists>sc. scoreAll lc cfg q books = Inr sc"
  by (induction books) (auto split: sum.splits)

lemma searchCache_get_state:
  "fst (searchCache_get cfg key st) = None \<Longrightarrow>
   searchCache (snd (searchCache_get cfg key st)) = searchCache st"
  by (auto simp: searchCache_get_def split: option.splits)

lemma searchCache_set_room:
  "cache_enabled cfg \<Longrightarrow> length (nc_keys (searchCache st)) < cache_maxKeys cfg \<Longrightarrow>
   searchCache_set cfg key v ttl st
     = Inr (True, st\<lparr>searchCache := AList.update key v (searchCache st)\<rparr>)"
  by (simp add: searchCache_set_def nc_set_def)


lemma searchCache_set_disabled:
  "\<not> cache_enabled cfg \<Longrightarrow> searchCache_set cfg key v ttl st = Inr (False, st)"
  by (simp add: searchCache_set_def)

lemma searchCache_set_returns:
  "\<not> cache_enabled cfg \<or> length (nc_keys (searchCache st)) < cache_maxKeys cfg \<Longrightarrow>
   \<exists>success st'. searchCache_set cfg key v ttl st = Inr (success, st')"
  by (auto simp: searchCache_set_def nc_set_def)


lemma advancedSearch_empty:
  assumes "fst (searchCache_get cfg (generateSearchKey (normalizeQuery query) options) st) = None"
    and "allBooks = None \<or> allBooks = Some []"
  shows "advancedSearch lc cmp cfg allBooks query options st =
         (Inr [], snd (searchCache_get cfg (generateSearchKey (normalizeQuery query) options) st))"
  using assms by (auto simp: advancedSearch_def Let_def case_prod_beta)


lemma advancedSearch_rank:
  assumes "fst (searchCache_get cfg (generateSearchKey (normalizeQuery query) options) st) = None"
    and "books \<noteq> []"
    and "\<not> (isNumeric (normalizeQuery query) \<and>
            (\<exists>b \<in> set books. book_id b = parseInt (normalizeQuery query)))"
  shows "advancedSearch lc cmp cfg (Some books) query options st =
     (let key = generateSearchKey (normalizeQuery query) options;
          st1 = snd (searchCache_get cfg key st)
      in case scoreAll lc cfg (normalizeQuery query) books of
           Inl e \<Rightarrow> (Inl e, st1)
         | Inr scoredBooks \<Rightarrow>
            (case sortResults cmp (optSortBy options)
                    (filter (\<lambda>book. score book \<ge> fuzzyThreshold cfg) scoredBooks) of
               Inl e \<Rightarrow> (Inl e, st1)
             | Inr sortedBooks \<Rightarrow>
                 (case searchCache_set cfg key
                         (map Scored (slice0 (optLimit cfg options) sortedBooks)) None st1 of
                    Inl e \<Rightarrow> (Inl e, st1)
                  | Inr (success, st2) \<Rightarrow>
                      (Inr (map Scored (slice0 (optLimit cfg options) sortedBooks)), st2))))"
proof -
  have "(if isNumeric (normalizeQuery query)
         then List.find (\<lambda>book. book_id book = parseInt (normalizeQuery query)) books
         else None) = None"
    using assms(3) by (auto simp: find_None_iff)
  then show ?thesis
    using assms(1,2)
    by (simp add: advancedSearch_def Let_def case_prod_beta split: sum.splits)
qed

lemma advancedSearch_rank_Inr:
  assumes miss: "fst (searchCache_get cfg (generateSearchKey (normalizeQuery query) options) st) = None"
    and ne: "books \<noteq> []"
    and noid: "\<not> (isNumeric (normalizeQuery query) \<and>
            (\<exists>b \<in> set books. book_id b = parseInt (normalizeQuery query)))"
    and res: "fst (advancedSearch lc cmp cfg (Some books) query options st) = Inr rows"
  shows "\<exists>scoredBooks sortedBooks.
           scoreAll lc cfg (normalizeQuery query) books = Inr scoredBooks \<and>
           sortResults cmp (optSortBy options)
             (filter (\<lambda>book. score book \<ge> fuzzyThreshold cfg) scoredBooks) = Inr sortedBooks \<and>
           rows = map Scored (slice0 (optLimit cfg options) sortedBooks)"
  using res unfolding advancedSearch_rank[OF miss ne noid] Let_def
  by (auto split: sum.splits prod.splits)

text \<open>
  The search returns rows, and raises nothing, when it reaches the scoring, every
  candidate has a name and an author, and the cache is disabled or has room.
\<close>

lemma scoreAll_names:
  "scoreAll lc cfg q books = Inr sc \<Longrightarrow> \<forall>sb \<in> set sc. book_name sb \<noteq> None"
proof -
  assume "scoreAll lc cfg q books = Inr sc"
  from scoreAll_members[OF this] show ?thesis
    by (auto dest!: scoreBook_Inr)
qed

lemma sortResults_returns:
  "\<forall>sb \<in> set xs. book_name sb \<noteq> None \<Longrightarrow> \<exists>ys. sortResults localeCompare sortBy xs = Inr ys"
  by (auto simp: sortResults_def)

lemma advancedSearch_returns:
  assumes miss: "fst (searchCache_get cfg (generateSearchKey (normalizeQuery query) options) st) = None"
    and ne: "books \<noteq> []"
    and noid: "\<not> (isNumeric (normalizeQuery query) \<and>
            (\<exists>b \<in> set books. book_id b = parseInt (normalizeQuery query)))"
    and names: "\<forall>b \<in> set books. book_name b \<noteq> None \<and> author_name b \<noteq> None"
    and room: "\<not> cache_enabled cfg \<or> length (nc_keys (searchCache st)) < cache_maxKeys cfg"
  shows "\<exists>rows. fst (advancedSearch toLowerCase localeCompare cfg (Some books) query options st)
           = Inr rows"
proof -
  have "\<forall>b \<in> set books. \<exists>s. scoreBook toLowerCase cfg b (normalizeQuery query) = Inr s"
    using names by (auto simp: scoreBook_value)
  from scoreAll_total[OF this] obtain sc where
    sc: "scoreAll toLowerCase cfg (normalizeQuery query) books = Inr sc" by blast
  let ?f = "filter (\<lambda>book. score book \<ge> fuzzyThreshold cfg) sc"
  have "\<forall>sb \<in> set ?f. book_name sb \<noteq> None"
    using scoreAll_names[OF sc] by simp
  from sortResults_returns[OF this] obtain ys where
    "sortResults localeCompare (optSortBy options) ?f = Inr ys" by blast
  moreover have "\<not> cache_enabled cfg \<or>
      length (nc_keys (searchCache (snd (searchCache_get cfg
        (generateSearchKey (normalizeQuery query) options) st)))) < cache_maxKeys cfg"
    using room by (simp add: searchCache_get_state[OF miss])
  from searchCache_set_returns[OF this] obtain success st' where
    "searchCache_set cfg (generateSearchKey (normalizeQuery query) options)
       (map Scored (slice0 (optLimit cfg options) ys)) None
       (snd (searchCache_get cfg (generateSearchKey (normalizeQuery query) options) st))
     = Inr (success, st')" by blast
  ultimately show ?thesis
    using sc by (simp add: advancedSearch_rank[OF miss ne noid] Let_def)
qed

subsection \<open>The example, evaluated\<close>

lemmas eval_norm = normalizePersianArabicChars_def replaceAll_def trim_def isWhiteSpace_def
  normalizeQuery_def convertDigit_def arabicDigits_def persianDigits_def englishDigits_def

lemmas eval_sim = calculateSimilarity_def startsWith_def levenshteinDistance_levRec Let_def
  asciiLowerCase_def

lemma js_neq_eval:
  "js ''relevance'' \<noteq> js ''popularity''" "js ''relevance'' \<noteq> js ''name''"
  "js ''name'' \<noteq> js ''popularity''"
  by (simp_all add: js_def)

lemma example_normalized: "normalizeQuery exampleQuery = exampleQuery"
  by (simp add: exampleQuery_def eval_norm Let_def)

lemma example_score1: "scoreBook asciiLowerCase config book1 exampleQuery = Inr (27 / 50)"
  by (simp add: scoreBook_def book1_def config_def exampleQuery_def eval_norm eval_sim)

lemma example_score2: "scoreBook asciiLowerCase config book2 exampleQuery = Inr (73 / 100)"
  by (simp add: scoreBook_def book2_def config_def exampleQuery_def eval_norm eval_sim)

lemma example_miss:
  "fst (searchCache_get config key emptyCache) = None"
  by (simp add: searchCache_get_def emptyCache_def nc_get_def config_def)

lemma example_nonempty: "[book1, book2] \<noteq> []"
  by simp

lemma config_fields:
  "fuzzyThreshold config = 3 / 10" "maxSimilarResults config = 10"
  "cache_enabled config" "cache_maxKeys config = 1000"
  by (simp_all add: config_def)

lemma example_room:
  "length (nc_keys (searchCache (snd (searchCache_get config key emptyCache))))
     < cache_maxKeys config"
  by (simp add: config_def searchCache_get_def emptyCache_def nc_get_def nc_keys_def)

lemmas example_set = searchCache_set_room[OF config_fields(3) example_room]

lemma example_not_numeric:
  "\<not> (isNumeric (normalizeQuery exampleQuery) \<and>
      (\<exists>b \<in> set [book1, book2]. book_id b = parseInt (normalizeQuery exampleQuery)))"
  by (simp add: example_normalized) (simp add: exampleQuery_def isNumeric_def)

lemma example_scored:
  "scoreAll asciiLowerCase config (normalizeQuery exampleQuery) [book1, book2]
     = Inr [withScore book1 (27 / 50), withScore book2 (73 / 100)]"
  by (simp add: example_normalized example_score1 example_score2)

lemmas example_rank =
  advancedSearch_rank[OF example_miss example_nonempty example_not_numeric]

lemma example_relevance:
  "fst (advancedSearch asciiLowerCase compareUnits config (Some [book1, book2]) exampleQuery
         [] emptyCache) = Inr exampleRows"
  by (simp only: example_rank Let_def example_scored)
     (simp add: sortResults_def sortWith_def slice0_def config_fields example_set js_neq_eval
      exampleRows_def)







lemma malformed_score:
  "scoreBook toLowerCase cfg malformedBook q = Inl TypeError"
  by (simp add: scoreBook_def malformedBook_def Let_def)

lemma malformed_not_numeric:
  "\<not> (isNumeric (normalizeQuery exampleQuery) \<and>
      (\<exists>b \<in> set [book1, malformedBook]. book_id b = parseInt (normalizeQuery exampleQuery)))"
  by (simp add: example_normalized) (simp add: exampleQuery_def isNumeric_def)

subsection \<open>Order of the results\<close>



subsection \<open>Threshold\<close>

text \<open>
  C2. In such a search every returned row is a candidate with its score, the score is
  at least the fuzzy threshold, and no candidate with a score below the threshold is
  among the rows.
\<close>

theorem advancedSearch_above_threshold:
  assumes miss: "fst (searchCache_get cfg (generateSearchKey (normalizeQuery query) options) st) = None"
    and ne: "books \<noteq> []"
    and noid: "\<not> (isNumeric (normalizeQuery query) \<and>
            (\<exists>b \<in> set books. book_id b = parseInt (normalizeQuery query)))"
    and res: "fst (advancedSearch toLowerCase localeCompare cfg (Some books) query options st) = Inr rows"
  shows "(\<forall>r \<in> set rows. \<exists>b \<in> set books. \<exists>s.
            scoreBook toLowerCase cfg b (normalizeQuery query) = Inr s \<and>
            r = Scored (withScore b s) \<and> fuzzyThreshold cfg \<le> s)
       \<and> (\<forall>b \<in> set books. \<forall>s.
            scoreBook toLowerCase cfg b (normalizeQuery query) = Inr s \<and> s < fuzzyThreshold cfg
            \<longrightarrow> Scored (withScore b s) \<notin> set rows)"
proof -
  from advancedSearch_rank_Inr[OF miss ne noid res] obtain scoredBooks sortedBooks where
    sc: "scoreAll toLowerCase cfg (normalizeQuery query) books = Inr scoredBooks"
    and so: "sortResults localeCompare (optSortBy options)
           (filter (\<lambda>book. score book \<ge> fuzzyThreshold cfg) scoredBooks) = Inr sortedBooks"
    and rows: "rows = map Scored (slice0 (optLimit cfg options) sortedBooks)"
    by blast
  have sub: "set (slice0 (optLimit cfg options) sortedBooks)
               \<subseteq> {sb \<in> set scoredBooks. fuzzyThreshold cfg \<le> score sb}"
    using set_slice0[of "optLimit cfg options" sortedBooks] sortResults_set[OF so] by auto
  have src: "\<forall>sb \<in> set scoredBooks. \<exists>b \<in> set books. \<exists>s.
            scoreBook toLowerCase cfg b (normalizeQuery query) = Inr s \<and> sb = withScore b s"
    using sc by (rule scoreAll_members)
  have A: "\<forall>r \<in> set rows. \<exists>b \<in> set books. \<exists>s.
            scoreBook toLowerCase cfg b (normalizeQuery query) = Inr s \<and>
            r = Scored (withScore b s) \<and> fuzzyThreshold cfg \<le> s"
  proof
    fix r assume "r \<in> set rows"
    then obtain sb where r: "r = Scored sb" and sb: "sb \<in> set scoredBooks"
      and th: "fuzzyThreshold cfg \<le> score sb"
      using rows sub by auto
    from src sb obtain b s where "b \<in> set books"
      "scoreBook toLowerCase cfg b (normalizeQuery query) = Inr s" "sb = withScore b s" by blast
    with r th show "\<exists>b \<in> set books. \<exists>s.
            scoreBook toLowerCase cfg b (normalizeQuery query) = Inr s \<and>
            r = Scored (withScore b s) \<and> fuzzyThreshold cfg \<le> s" by auto
  qed
  have B: "\<forall>b \<in> set books. \<forall>s.
            scoreBook toLowerCase cfg b (normalizeQuery query) = Inr s \<and> s < fuzzyThreshold cfg
            \<longrightarrow> Scored (withScore b s) \<notin> set rows"
  proof (intro ballI allI impI notI)
    fix b s
    assume "scoreBook toLowerCase cfg b (normalizeQuery query) = Inr s \<and> s < fuzzyThreshold cfg"
      and "Scored (withScore b s) \<in> set rows"
    with A obtain b' s' where "withScore b s = withScore b' s'" "fuzzyThreshold cfg \<le> s'"
      by blast
    then show False using \<open>_ \<and> s < fuzzyThreshold cfg\<close> by (simp add: withScore_inject)
  qed
  from A B show ?thesis by blast
qed

theorem advancedSearch_above_threshold_witness:
  "fst (searchCache_get config (generateSearchKey (normalizeQuery exampleQuery) []) emptyCache)
     = None
   \<and> fst (advancedSearch asciiLowerCase compareUnits config (Some [book1, book2]) exampleQuery
           [] emptyCache) = Inr exampleRows
   \<and> (\<exists>b \<in> set [book1, book2]. \<exists>s.
         scoreBook asciiLowerCase config b (normalizeQuery exampleQuery) = Inr s \<and>
         Scored (withScore book1 (27 / 50)) = Scored (withScore b s) \<and> fuzzyThreshold config \<le> s)"
proof -
  note t = advancedSearch_above_threshold[OF example_miss example_nonempty example_not_numeric
      example_relevance]
  have "Scored (withScore book1 (27 / 50)) \<in> set exampleRows"
    by (simp add: exampleRows_def)
  with t have "\<exists>b \<in> set [book1, book2]. \<exists>s.
         scoreBook asciiLowerCase config b (normalizeQuery exampleQuery) = Inr s \<and>
         Scored (withScore book1 (27 / 50)) = Scored (withScore b s) \<and> fuzzyThreshold config \<le> s"
    by blast
  with example_miss example_relevance show ?thesis by blast
qed

subsection \<open>Exact-ID shortcut\<close>






subsection \<open>No candidates\<close>

text \<open>
  C4, as the code has it. On a miss, when the fetch returns no candidate, the search
  returns the empty sequence and writes nothing: the module is in the state the lookup
  left, the store is unchanged, and an enabled cache still has no entry under the key.
\<close>

theorem advancedSearch_no_candidates:
  assumes miss: "fst (searchCache_get cfg (generateSearchKey (normalizeQuery query) options) st) = None"
    and empty: "allBooks = None \<or> allBooks = Some []"
  shows "fst (advancedSearch toLowerCase localeCompare cfg allBooks query options st) = Inr []
       \<and> snd (advancedSearch toLowerCase localeCompare cfg allBooks query options st)
           = snd (searchCache_get cfg (generateSearchKey (normalizeQuery query) options) st)
       \<and> searchCache (snd (advancedSearch toLowerCase localeCompare cfg allBooks query options st))
           = searchCache st
       \<and> (cache_enabled cfg \<longrightarrow>
            nc_get (searchCache (snd (advancedSearch toLowerCase localeCompare cfg allBooks query
                                        options st)))
              (generateSearchKey (normalizeQuery query) options) = None)"
proof -
  have "cache_enabled cfg \<longrightarrow>
        nc_get (searchCache st) (generateSearchKey (normalizeQuery query) options) = None"
    using miss by (auto simp: searchCache_get_def split: option.splits if_splits)
  then show ?thesis
    by (simp add: advancedSearch_empty[OF miss empty] searchCache_get_state[OF miss])
qed

theorem advancedSearch_no_candidates_witness:
  "fst (searchCache_get config (generateSearchKey (normalizeQuery exampleQuery) []) emptyCache) = None
   \<and> fst (advancedSearch asciiLowerCase compareUnits config (Some []) exampleQuery [] emptyCache)
       = Inr []
   \<and> searchCache (snd (advancedSearch asciiLowerCase compareUnits config (Some []) exampleQuery []
                          emptyCache)) = []"
proof -
  let ?key = "generateSearchKey (normalizeQuery exampleQuery) []"
  have miss: "fst (searchCache_get config ?key emptyCache) = None"
    by (rule example_miss)
  have empty: "Some [] = (None :: book list option) \<or> Some [] = Some ([] :: book list)"
    by simp
  note run = advancedSearch_no_candidates[OF miss empty,
      where toLowerCase = asciiLowerCase and localeCompare = compareUnits]
  from run have "searchCache (snd (advancedSearch asciiLowerCase compareUnits config (Some [])
      exampleQuery [] emptyCache)) = searchCache emptyCache"
    by blast
  then have "searchCache (snd (advancedSearch asciiLowerCase compareUnits config (Some [])
      exampleQuery [] emptyCache)) = []"
    by (simp add: emptyCache_def)
  with miss run show ?thesis by blast
qed

text \<open>
  C4 as stated fails: after a search without candidates on the empty cache the store
  has no entry under the key of the search.
\<close>

theorem advancedSearch_no_candidates_not_cached:
  "fst (searchCache_get config (generateSearchKey (normalizeQuery exampleQuery) []) emptyCache) = None
   \<and> fst (advancedSearch asciiLowerCase compareUnits config (Some []) exampleQuery [] emptyCache)
       = Inr []
   \<and> nc_get (searchCache (snd (advancedSearch asciiLowerCase compareUnits config (Some [])
                                  exampleQuery [] emptyCache)))
       (generateSearchKey (normalizeQuery exampleQuery) []) \<noteq> Some []"
  by (simp add: advancedSearch_empty[OF example_miss] example_miss)
     (simp add: searchCache_get_def emptyCache_def nc_get_def config_def)

subsection \<open>An exception while scoring\<close>

text \<open>
  C6, as the code has it. When \<open>scoreBook\<close> raises on a candidate, the search raises
  too and the store of the cache is unchanged: no candidate is given the score zero.
\<close>

theorem advancedSearch_scoring_raises:
  assumes miss: "fst (searchCache_get cfg (generateSearchKey (normalizeQuery query) options) st) = None"
    and ne: "b \<in> set books"
    and noid: "\<not> (isNumeric (normalizeQuery query) \<and>
            (\<exists>b \<in> set books. book_id b = parseInt (normalizeQuery query)))"
    and raises: "scoreBook toLowerCase cfg b (normalizeQuery query) = Inl e"
  shows "(\<exists>e'. fst (advancedSearch toLowerCase localeCompare cfg (Some books) query options st) = Inl e')
       \<and> searchCache (snd (advancedSearch toLowerCase localeCompare cfg (Some books) query options st))
           = searchCache st"
proof -
  from ne have ne': "books \<noteq> []" by auto
  from scoreAll_Inl[OF ne raises] obtain e' where
    "scoreAll toLowerCase cfg (normalizeQuery query) books = Inl e'" by blast
  then show ?thesis
    by (simp add: advancedSearch_rank[OF miss ne' noid] Let_def searchCache_get_state[OF miss])
qed

theorem advancedSearch_scoring_raises_witness:
  "fst (searchCache_get config (generateSearchKey (normalizeQuery exampleQuery) []) emptyCache)
     = None
   \<and> malformedBook \<in> set [book1, malformedBook]
   \<and> scoreBook asciiLowerCase config malformedBook (normalizeQuery exampleQuery) = Inl TypeError
   \<and> (\<exists>e. fst (advancedSearch asciiLowerCase compareUnits config (Some [book1, malformedBook])
                 exampleQuery [] emptyCache) = Inl e)
   \<and> searchCache (snd (advancedSearch asciiLowerCase compareUnits config
                          (Some [book1, malformedBook]) exampleQuery [] emptyCache)) = []"
proof -
  have mem: "malformedBook \<in> set [book1, malformedBook]" by simp
  note t = advancedSearch_scoring_raises[OF example_miss mem malformed_not_numeric
      malformed_score, where localeCompare = compareUnits and options = "[]"]
  from t have "searchCache (snd (advancedSearch asciiLowerCase compareUnits config
                          (Some [book1, malformedBook]) exampleQuery [] emptyCache))
               = searchCache emptyCache" by blast
  then have "searchCache (snd (advancedSearch asciiLowerCase compareUnits config
                          (Some [book1, malformedBook]) exampleQuery [] emptyCache)) = []"
    by (simp add: emptyCache_def)
  with t example_miss mem malformed_score show ?thesis by blast
qed

text \<open>
  C6 as stated fails: with a first candidate that scores 0.54, above the threshold,
  and a second one without a name, the search raises the TypeError and returns no row.
\<close>

theorem advancedSearch_malformed_aborts:
  "scoreBook asciiLowerCase config book1 (normalizeQuery exampleQuery) = Inr (27 / 50)
   \<and> fuzzyThreshold config \<le> 27 / 50
   \<and> scoreBook asciiLowerCase config malformedBook (normalizeQuery exampleQuery) = Inl TypeError
   \<and> fst (advancedSearch asciiLowerCase compareUnits config (Some [book1, malformedBook])
            exampleQuery [] emptyCache) = Inl TypeError"
proof -
  have ne: "[book1, malformedBook] \<noteq> []" by simp
  have "scoreAll asciiLowerCase config (normalizeQuery exampleQuery) [book1, malformedBook]
          = Inl TypeError"
    by (simp add: malformed_score example_normalized example_score1)
  then have "fst (advancedSearch asciiLowerCase compareUnits config (Some [book1, malformedBook])
            exampleQuery [] emptyCache) = Inl TypeError"
    by (simp add: advancedSearch_rank[OF example_miss ne malformed_not_numeric] Let_def)
  moreover have "fuzzyThreshold config \<le> 27 / 50" by (simp add: config_def)
  ultimately show ?thesis
    by (simp add: malformed_score example_normalized example_score1)
qed

section \<open>The JSON text determines the options\<close>

text \<open>
  Reading back what \<open>quoteJSONString\<close> wrote gives the string and the text after it, so
  a quoted string at the head of a text determines the string and the rest. The same
  holds for the digits of an integer before a comma or a closing brace, then for a
  property, and then for the properties of an object, one after the other.
\<close>

lemma unhexDigit_hexDigit: "d < 16 \<Longrightarrow> unhexDigit (hexDigit d) = d"
  by (simp add: unhexDigit_def hexDigit_def)

lemma unhex_digits:
  fixes c :: nat
  assumes "c < 65536"
  shows "4096 * (c div 4096 mod 16) + 256 * (c div 256 mod 16) + 16 * (c div 16 mod 16) + c mod 16 = c"
proof -
  have q2: "c div 256 = c div 16 div 16" and q3: "c div 4096 = c div 256 div 16"
    by (simp_all add: div_mult2_eq[symmetric])
  from assms have "c div 4096 < 16" by simp
  then have m3: "c div 4096 mod 16 = c div 4096" by simp
  have s0: "c = 16 * (c div 16) + c mod 16" by simp
  have s1: "c div 16 = 16 * (c div 256) + c div 16 mod 16" unfolding q2 by simp
  have s2: "c div 256 = 16 * (c div 4096) + c div 256 mod 16" unfolding q3 by simp
  from s0 s1 s2 show ?thesis unfolding m3 by linarith
qed

lemma mod16: "(n::nat) mod 16 < 16"
  by simp

lemma unquote_u:
  "unquoteUnits (0x5C # 0x75 # h3 # h2 # h1 # h0 # t)
     = map_option (apfst ((#) (4096 * unhexDigit h3 + 256 * unhexDigit h2
                                + 16 * unhexDigit h1 + unhexDigit h0)))
         (unquoteUnits t)"
  by simp

lemma unquote_raw:
  "c \<noteq> 0x22 \<Longrightarrow> c \<noteq> 0x5C \<Longrightarrow>
   unquoteUnits (c # t) = map_option (apfst ((#) c)) (unquoteUnits t)"
  by simp

lemma unquote_unicodeEscape:
  assumes "c < 65536"
  shows "unquoteUnits (unicodeEscape c @ t) = map_option (apfst ((#) c)) (unquoteUnits t)"
proof -
  have "4096 * unhexDigit (hexDigit (c div 4096 mod 16))
        + 256 * unhexDigit (hexDigit (c div 256 mod 16))
        + 16 * unhexDigit (hexDigit (c div 16 mod 16))
        + unhexDigit (hexDigit (c mod 16)) = c"
    by (simp only: unhexDigit_hexDigit[OF mod16] unhex_digits[OF assms])
  then show ?thesis
    by (simp only: unicodeEscape_def append_Cons append_Nil unquote_u)
qed

lemma unquote_named:
  "unquoteUnits (0x5C # e # t) =
     (if e = 0x75 then unquoteUnits (0x5C # 0x75 # t)
      else map_option (apfst ((#) (unescape e))) (unquoteUnits t))"
  by simp

lemma unquote_escapeUnit:
  "unquoteUnits (escapeUnit c @ t) = map_option (apfst ((#) c)) (unquoteUnits t)"
proof -
  consider "c = 0x08" | "c = 0x09" | "c = 0x0A" | "c = 0x0C" | "c = 0x0D" | "c = 0x22"
    | "c = 0x5C"
    | (ctl) "c \<noteq> 0x08" "c \<noteq> 0x09" "c \<noteq> 0x0A" "c \<noteq> 0x0C" "c \<noteq> 0x0D" "c \<noteq> 0x22"
        "c \<noteq> 0x5C" "c < 0x20"
    | (raw) "c \<noteq> 0x08" "c \<noteq> 0x09" "c \<noteq> 0x0A" "c \<noteq> 0x0C" "c \<noteq> 0x0D" "c \<noteq> 0x22"
        "c \<noteq> 0x5C" "\<not> c < 0x20"
    by blast
  then show ?thesis
  proof cases
    case 1 then show ?thesis by (simp add: escapeUnit_def unescape_def)
  next
    case 2 then show ?thesis by (simp add: escapeUnit_def unescape_def)
  next
    case 3 then show ?thesis by (simp add: escapeUnit_def unescape_def)
  next
    case 4 then show ?thesis by (simp add: escapeUnit_def unescape_def)
  next
    case 5 then show ?thesis by (simp add: escapeUnit_def unescape_def)
  next
    case 6 then show ?thesis by (simp add: escapeUnit_def unescape_def)
  next
    case 7 then show ?thesis by (simp add: escapeUnit_def unescape_def)
  next
    case ctl
    then have e: "escapeUnit c = unicodeEscape c" by (simp add: escapeUnit_def)
    from ctl have "c < 65536" by simp
    from unquote_unicodeEscape[OF this] show ?thesis by (simp only: e)
  next
    case raw
    then have e: "escapeUnit c = [c]" by (simp add: escapeUnit_def)
    from raw have r: "c \<noteq> 0x22" "c \<noteq> 0x5C" by blast+
    show ?thesis by (simp only: e append_Cons append_Nil unquote_raw[OF r])
  qed
qed

lemma surrogate_raw:
  "isLeadingSurrogate c \<or> isTrailingSurrogate c \<Longrightarrow> c \<noteq> 0x22 \<and> c \<noteq> 0x5C \<and> c < 65536"
  by (auto simp: isLeadingSurrogate_def isTrailingSurrogate_def)

lemma unquote_quoteUnits: "unquoteUnits (quoteUnits v @ 0x22 # x) = Some (v, x)"
proof (induction v rule: quoteUnits.induct)
  case 1
  then show ?case by simp
next
  case (2 c)
  show ?case
  proof (cases "isLeadingSurrogate c \<or> isTrailingSurrogate c")
    case True
    then have "c < 65536" using surrogate_raw by blast
    with True show ?thesis by (simp add: unquote_unicodeEscape)
  next
    case False
    then show ?thesis by (simp add: unquote_escapeUnit)
  qed
next
  case (3 c d rest)
  show ?case
  proof (cases "isLeadingSurrogate c \<and> isTrailingSurrogate d")
    case True
    have q: "quoteUnits (c # d # rest) = c # d # quoteUnits rest"
      using True by (simp only: quoteUnits.simps if_True simp_thms)
    from True have c: "c \<noteq> 0x22" "c \<noteq> 0x5C" and d: "d \<noteq> 0x22" "d \<noteq> 0x5C"
      using surrogate_raw by blast+
    from "3.IH"(1)[OF True] show ?thesis
      by (simp only: q append_Cons unquote_raw[OF c] unquote_raw[OF d]) simp
  next
    case pair: False
    show ?thesis
    proof (cases "isLeadingSurrogate c \<or> isTrailingSurrogate c")
      case True
      then have c: "c < 65536" using surrogate_raw by blast
      have q: "quoteUnits (c # d # rest) = unicodeEscape c @ quoteUnits (d # rest)"
        by (simp only: quoteUnits.simps pair True if_False if_True)
      from "3.IH"(2)[OF pair True] show ?thesis
        by (simp only: q append_assoc unquote_unicodeEscape[OF c]) simp
    next
      case False
      have q: "quoteUnits (c # d # rest) = escapeUnit c @ quoteUnits (d # rest)"
        by (simp only: quoteUnits.simps pair False if_False)
      from "3.IH"(3)[OF pair False] show ?thesis
        by (simp only: q append_assoc unquote_escapeUnit) simp
    qed
  qed
qed

lemma quoteJSONString_unique:
  assumes "quoteJSONString v @ x = quoteJSONString w @ y"
  shows "v = w \<and> x = y"
proof -
  from assms have "quoteUnits v @ 0x22 # x = quoteUnits w @ 0x22 # y"
    by (simp add: quoteJSONString_def)
  then have "unquoteUnits (quoteUnits v @ 0x22 # x) = unquoteUnits (quoteUnits w @ 0x22 # y)"
    by simp
  then show ?thesis by (simp add: unquote_quoteUnits)
qed

lemma quoteJSONString_head: "quoteJSONString v @ x = 0x22 # quoteUnits v @ 0x22 # x"
  by (simp add: quoteJSONString_def)

lemma serializeProperty_parts:
  "serializeProperty (Category None) @ x = js ''\"c'' @ js ''ategory\":'' @ js ''null'' @ x"
  "serializeProperty (Category (Some v)) @ x = js ''\"c'' @ js ''ategory\":'' @ quoteJSONString v @ x"
  "serializeProperty (Author None) @ x = js ''\"a'' @ js ''uthor\":'' @ js ''null'' @ x"
  "serializeProperty (Author (Some v)) @ x = js ''\"a'' @ js ''uthor\":'' @ quoteJSONString v @ x"
  "serializeProperty (SortBy v) @ x = js ''\"s'' @ js ''ortBy\":'' @ quoteJSONString v @ x"
  "serializeProperty (Limit n) @ x = js ''\"l'' @ js ''imit\":'' @ decimalInt n @ x"
  by (simp_all add: js_def)

lemma null_not_quoted: "js ''null'' @ x \<noteq> quoteJSONString v @ y"
  by (simp add: js_def quoteJSONString_def)

lemma serializeProperty_unique:
  assumes eq: "serializeProperty f @ x = serializeProperty g @ y"
    and x: "separated x" and y: "separated y"
  shows "f = g \<and> x = y"
proof -
  have tag: "\<And>f x. (serializeProperty f @ x) ! 1 =
      (case f of Category v \<Rightarrow> 0x63 | Author v \<Rightarrow> 0x61 | SortBy v \<Rightarrow> 0x73 | Limit n \<Rightarrow> 0x6C)"
  proof -
    fix f x show "(serializeProperty f @ x) ! 1 =
      (case f of Category v \<Rightarrow> 0x63 | Author v \<Rightarrow> 0x61 | SortBy v \<Rightarrow> 0x73 | Limit n \<Rightarrow> 0x6C)"
    proof (cases f)
      case (Category v) then show ?thesis by (cases v) (simp_all add: js_def)
    next
      case (Author v) then show ?thesis by (cases v) (simp_all add: js_def)
    next
      case (SortBy v) then show ?thesis by (simp add: js_def)
    next
      case (Limit n) then show ?thesis by (simp add: js_def)
    qed
  qed
  from eq have t: "(serializeProperty f @ x) ! 1 = (serializeProperty g @ y) ! 1" by simp
  have q: "\<And>v w. quoteJSONString v @ x = quoteJSONString w @ y \<Longrightarrow> v = w \<and> x = y"
    by (rule quoteJSONString_unique)
  show ?thesis
  proof (cases f)
    case f: (Category v)
    with t obtain w where g: "g = Category w"
      unfolding tag by (cases g) simp_all
    show ?thesis
    proof (cases v)
      case None
      with eq f g show ?thesis
        by (cases w) (simp_all only: serializeProperty_parts same_append_eq null_not_quoted
            simp_thms)
    next
      case (Some v')
      with eq f g show ?thesis
        by (cases w) (auto simp only: serializeProperty_parts same_append_eq
            null_not_quoted[symmetric] simp_thms dest: q)
    qed
  next
    case f: (Author v)
    with t obtain w where g: "g = Author w"
      unfolding tag by (cases g) simp_all
    show ?thesis
    proof (cases v)
      case None
      with eq f g show ?thesis
        by (cases w) (simp_all only: serializeProperty_parts same_append_eq null_not_quoted
            simp_thms)
    next
      case (Some v')
      with eq f g show ?thesis
        by (cases w) (auto simp only: serializeProperty_parts same_append_eq
            null_not_quoted[symmetric] simp_thms dest: q)
    qed
  next
    case f: (SortBy v)
    with t obtain w where g: "g = SortBy w"
      unfolding tag by (cases g) simp_all
    with eq f show ?thesis
      by (auto simp only: serializeProperty_parts same_append_eq dest: q)
  next
    case f: (Limit n)
    with t obtain m where g: "g = Limit m"
      unfolding tag by (cases g) simp_all
    with eq f have "decimalInt n @ x = decimalInt m @ y"
      by (simp only: serializeProperty_parts same_append_eq)
    from decimalInt_unique[OF this x y] f g show ?thesis by simp
  qed
qed

lemma serializeProperty_head: "\<exists>t. serializeProperty f = 0x22 # t"
proof (cases f)
  case (Category v) then show ?thesis by (cases v) (simp_all add: js_def)
next
  case (Author v) then show ?thesis by (cases v) (simp_all add: js_def)
next
  case (SortBy v) then show ?thesis by (simp add: js_def)
next
  case (Limit n) then show ?thesis by (simp add: js_def)
qed

lemma joinComma_Cons:
  "joinComma (p # ps) @ z = p @ (if ps = [] then z else 0x2C # joinComma ps @ z)"
  by (cases ps) (simp_all add: js_def)

lemma joinComma_unique:
  "joinComma (map serializeProperty ps) @ 0x7D # x = joinComma (map serializeProperty qs) @ 0x7D # y
   \<Longrightarrow> ps = qs \<and> x = y"
proof (induction ps arbitrary: qs)
  case Nil
  show ?case
  proof (cases qs)
    case Nil
    with Nil.prems show ?thesis by simp
  next
    case (Cons q qs')
    obtain t where "serializeProperty q = 0x22 # t" using serializeProperty_head by blast
    with Nil.prems Cons show ?thesis by (simp add: joinComma_Cons)
  qed
next
  case (Cons p ps)
  show ?case
  proof (cases qs)
    case Nil
    obtain t where "serializeProperty p = 0x22 # t" using serializeProperty_head by blast
    with Cons.prems Nil show ?thesis by (simp add: joinComma_Cons)
  next
    case qs: (Cons q qs')
    define r1 where "r1 = (if map serializeProperty ps = [] then 0x7D # x
                           else 0x2C # joinComma (map serializeProperty ps) @ 0x7D # x)"
    define r2 where "r2 = (if map serializeProperty qs' = [] then 0x7D # y
                           else 0x2C # joinComma (map serializeProperty qs') @ 0x7D # y)"
    have s1: "separated r1" and s2: "separated r2"
      by (simp_all add: r1_def r2_def separated_def)
    from Cons.prems qs have "serializeProperty p @ r1 = serializeProperty q @ r2"
      by (simp only: list.map joinComma_Cons r1_def r2_def)
    from serializeProperty_unique[OF this s1 s2] have pq: "p = q" and r: "r1 = r2" by blast+
    show ?thesis
    proof (cases ps)
      case Nil
      with r have "qs' = [] \<and> x = y" by (cases qs') (simp_all add: r1_def r2_def)
      with Nil pq qs show ?thesis by simp
    next
      case ps: (Cons p' ps')
      with r have "qs' \<noteq> []" by (cases qs') (simp_all add: r1_def r2_def)
      with r ps have "joinComma (map serializeProperty ps) @ 0x7D # x
                      = joinComma (map serializeProperty qs') @ 0x7D # y"
        by (simp add: r1_def r2_def)
      from Cons.IH[OF this] pq qs show ?thesis by simp
    qed
  qed
qed

lemma JSON_stringify_unique: "JSON_stringify o1 = JSON_stringify o2 \<Longrightarrow> o1 = o2"
proof -
  assume "JSON_stringify o1 = JSON_stringify o2"
  then have "joinComma (map serializeProperty o1) @ 0x7D # [] = joinComma (map serializeProperty o2) @ 0x7D # []"
    by (simp add: JSON_stringify_def js_def)
  from joinComma_unique[OF this] show ?thesis by blast
qed

section \<open>The cache key\<close>

text \<open>
  C5, as the code has it. The key is \<open>"search:"\<close>, the query, \<open>":"\<close> and the JSON
  text of the options, whose properties stand in the order in which the object holds
  them. The JSON text determines the properties, their values and their order, so two
  keys for one query are equal exactly when the two option objects hold the same
  properties with the same values in the same order: any other order of the same
  properties gives another key.
\<close>

theorem generateSearchKey_form:
  "generateSearchKey q opts = js ''search:'' @ q @ js '':'' @ JSON_stringify opts
   \<and> JSON_stringify opts = js ''{'' @ joinComma (map serializeProperty opts) @ js ''}''
   \<and> (generateSearchKey q opts = generateSearchKey q opts' \<longleftrightarrow> opts = opts')"
proof -
  have "JSON_stringify opts = JSON_stringify opts' \<longleftrightarrow> opts = opts'"
    using JSON_stringify_unique by blast
  then show ?thesis by (simp add: generateSearchKey_def JSON_stringify_def Let_def)
qed

text \<open>
  C5 as stated fails: two option objects with the same two properties, written in the
  two orders, give different keys.
\<close>

theorem generateSearchKey_field_order:
  "set [SortBy (js ''name''), Limit 5] = set [Limit 5, SortBy (js ''name'')]
   \<and> generateSearchKey (js ''fiqh'') [SortBy (js ''name''), Limit 5]
       = js ''search:fiqh:{\"sortBy\":\"name\",\"limit\":5}''
   \<and> generateSearchKey (js ''fiqh'') [Limit 5, SortBy (js ''name'')]
       = js ''search:fiqh:{\"limit\":5,\"sortBy\":\"name\"}''
   \<and> generateSearchKey (js ''fiqh'') [SortBy (js ''name''), Limit 5]
       \<noteq> generateSearchKey (js ''fiqh'') [Limit 5, SortBy (js ''name'')]"
proof -
  have q: "quoteJSONString (js ''name'') = js ''\"name\"''"
    by (simp add: quoteJSONString_def js_def escapeUnit_def isLeadingSurrogate_def
        isTrailingSurrogate_def)
  have d: "decimalInt 5 = js ''5''"
    by (simp add: decimalInt_def decimalNat_small js_def)
  have 1: "generateSearchKey (js ''fiqh'') [SortBy (js ''name''), Limit 5]
       = js ''search:fiqh:{\"sortBy\":\"name\",\"limit\":5}''"
    by (simp add: generateSearchKey_def JSON_stringify_def Let_def q d) (simp add: js_def)
  have 2: "generateSearchKey (js ''fiqh'') [Limit 5, SortBy (js ''name'')]
       = js ''search:fiqh:{\"limit\":5,\"sortBy\":\"name\"}''"
    by (simp add: generateSearchKey_def JSON_stringify_def Let_def q d) (simp add: js_def)
  have 3: "js ''search:fiqh:{\"sortBy\":\"name\",\"limit\":5}''
          \<noteq> js ''search:fiqh:{\"limit\":5,\"sortBy\":\"name\"}''"
    by (simp add: js_def)
  have 0: "set [SortBy (js ''name''), Limit 5] = set [Limit 5, SortBy (js ''name'')]"
    by auto
  show ?thesis unfolding 1 2 using 0 3 by simp
qed

section \<open>Statistics of the cache\<close>

lemma toFixed2_digits:
  "toFixed2 x =
     (let n = nat \<lfloor>x * 100 + 1 / 2\<rfloor>
      in decimalNat (n div 100) @ [0x2E, 0x30 + n div 10 mod 10, 0x30 + n mod 10])"
proof -
  define n where "n = nat \<lfloor>x * 100 + 1 / 2\<rfloor>"
  consider "n < 10" | "10 \<le> n" "n < 100" | "100 \<le> n" by linarith
  then have "(let m = decimalNat n;
          m = (if length m \<le> 2 then replicate (3 - length m) 0x30 @ m else m);
          k = length m
      in take (k - 2) m @ [0x2E] @ drop (k - 2) m)
     = decimalNat (n div 100) @ [0x2E, 0x30 + n div 10 mod 10, 0x30 + n mod 10]"
  proof cases
    case 1
    then show ?thesis by (simp add: decimalNat_small Let_def numeral_3_eq_3)
  next
    case 2
    then have "n div 10 < 10" by simp
    with 2 show ?thesis
      by (simp add: decimalNat_step[of n] decimalNat_small[of "n div 10"] decimalNat_small[of 0] Let_def)
  next
    case 3
    have "length (decimalNat (n div 100)) \<noteq> 0" using decimalNat_nonempty by simp
    with 3 show ?thesis
      by (simp add: decimalNat_two Let_def)
  qed
  then show ?thesis by (simp add: toFixed2_def n_def Let_def)
qed

lemma round_half_up_close:
  fixes p :: real
  assumes "0 \<le> p"
  shows "\<bar>real (nat \<lfloor>p * 100 + 1 / 2\<rfloor>) / 100 - p\<bar> \<le> 1 / 200"
proof -
  let ?f = "\<lfloor>p * 100 + 1 / 2\<rfloor>"
  have nn: "0 \<le> ?f" using assms by simp
  have b: "real_of_int ?f \<le> p * 100 + 1 / 2" "p * 100 + 1 / 2 < real_of_int ?f + 1"
    by linarith+
  have r: "real (nat ?f) = real_of_int ?f" using nn by simp
  have "real_of_int ?f / 100 - p \<le> 1 / 200" "- (1 / 200) \<le> real_of_int ?f / 100 - p"
    using b by linarith+
  then show ?thesis unfolding r abs_le_iff by simp
qed

lemma roundHalfEven_close: "\<bar>real_of_int (roundHalfEven x) - x\<bar> \<le> 1 / 2"
proof -
  have "real_of_int \<lfloor>x\<rfloor> \<le> x" "x < real_of_int \<lfloor>x\<rfloor> + 1" by linarith+
  then show ?thesis by (auto simp: roundHalfEven_def Let_def abs_le_iff)
qed

lemma roundToDouble_nonpos: "x \<le> 0 \<Longrightarrow> roundToDouble x = 0"
  by (subst roundToDouble.simps) simp

lemma roundToDouble_up:
  "0 < x \<Longrightarrow> x < significandLow \<Longrightarrow> roundToDouble x = roundToDouble (2 * x) / 2"
  by (subst roundToDouble.simps) simp

lemma roundToDouble_down:
  "2 * significandLow \<le> x \<Longrightarrow> roundToDouble x = 2 * roundToDouble (x / 2)"
  by (subst roundToDouble.simps) (simp add: significandLow_def)

lemma roundToDouble_in_range:
  "significandLow \<le> x \<Longrightarrow> x < 2 * significandLow \<Longrightarrow>
   roundToDouble x = of_int (roundHalfEven x)"
  by (subst roundToDouble.simps) (simp add: significandLow_def)

lemma roundToDouble_scaled:
  "0 < x \<Longrightarrow> significandLow \<le> x * 2 ^ k \<Longrightarrow> x * 2 ^ k < 2 * significandLow \<Longrightarrow>
   roundToDouble x = of_int (roundHalfEven (x * 2 ^ k)) / 2 ^ k"
proof (induction k arbitrary: x)
  case 0
  then show ?case by (simp add: roundToDouble_in_range)
next
  case (Suc k)
  have p: "(1::real) \<le> 2 ^ k" by simp
  have "x * 2 ^ k * 2 < 2 * significandLow" using Suc.prems by (simp add: mult.assoc)
  then have "x * 2 ^ k < significandLow" by linarith
  moreover have "x \<le> x * 2 ^ k" using Suc.prems(1) p by simp
  ultimately have small: "x < significandLow" by linarith
  have "roundToDouble (2 * x) = of_int (roundHalfEven (2 * x * 2 ^ k)) / 2 ^ k"
    using Suc.prems by (intro Suc.IH) (simp_all add: mult.assoc mult.left_commute)
  then show ?case
    using roundToDouble_up[OF Suc.prems(1) small] by (simp add: mult.assoc mult.left_commute)
qed

lemma roundToDouble_error: "0 < x \<Longrightarrow> \<bar>roundToDouble x - x\<bar> \<le> x / 2 ^ 53"
proof (induction x rule: roundToDouble.induct)
  case (1 x)
  define e :: real where "e = 2 ^ 53"
  consider "x < significandLow" | "2 * significandLow \<le> x"
    | "significandLow \<le> x" "x < 2 * significandLow" by linarith
  then have "\<bar>roundToDouble x - x\<bar> \<le> x / e"
  proof cases
    case 1
    have "\<bar>roundToDouble (2 * x) - 2 * x\<bar> \<le> 2 * x / 2 ^ 53"
      using "1.prems" 1 by (intro "1.IH"(1)) simp_all
    then have "\<bar>roundToDouble (2 * x) - 2 * x\<bar> \<le> 2 * (x / e)"
      by (simp only: e_def times_divide_eq_right)
    then show ?thesis
      unfolding roundToDouble_up[OF "1.prems" 1] by linarith
  next
    case 2
    then have n: "\<not> x < significandLow" by (simp add: significandLow_def)
    have "\<bar>roundToDouble (x / 2) - x / 2\<bar> \<le> x / 2 / 2 ^ 53"
      using "1.prems" 2 n by (intro "1.IH"(2)) simp_all
    moreover have "x / 2 / e = x / e / 2" by simp
    ultimately have "\<bar>roundToDouble (x / 2) - x / 2\<bar> \<le> x / e / 2"
      by (simp only: e_def)
    moreover have "\<And>r u :: real. \<bar>r - x / 2\<bar> \<le> u / 2 \<Longrightarrow> \<bar>2 * r - x\<bar> \<le> u"
      by linarith
    ultimately show ?thesis
      unfolding roundToDouble_down[OF 2] by blast
  next
    case 3
    have "1 / 2 \<le> x / e" using 3(1) by (simp add: significandLow_def e_def)
    with roundHalfEven_close[of x] show ?thesis
      unfolding roundToDouble_in_range[OF 3] by linarith
  qed
  then show ?case by (simp only: e_def)
qed

lemma roundToDouble_nonneg: "0 \<le> roundToDouble x"
proof (cases "0 < x")
  case True
  from roundToDouble_error[OF this] have "x - x / 2 ^ 53 \<le> roundToDouble x" by linarith
  moreover have "x / 2 ^ 53 \<le> x" using True by (simp add: divide_le_eq)
  ultimately show ?thesis using True by linarith
next
  case False
  then show ?thesis by (simp add: roundToDouble_nonpos)
qed

lemma percentage_error:
  fixes h t :: nat
  assumes "h \<le> t" "0 < t"
  shows "\<bar>roundToDouble (roundToDouble (real h / real t) * 100) - real h / real t * 100\<bar>
           \<le> 1 / 10 ^ 13"
proof (cases "h = 0")
  case True
  then show ?thesis by (simp add: roundToDouble_nonpos)
next
  case False
  let ?r = "real h / real t"
  let ?d = "roundToDouble ?r"
  have r: "0 < ?r" "?r \<le> 1" using assms False by simp_all
  have e1: "\<bar>?d - ?r\<bar> \<le> ?r / 2 ^ 53" using r(1) by (rule roundToDouble_error)
  have "?r / 2 ^ 53 \<le> 1 / 2 ^ 53" using r(2) by (simp add: divide_le_cancel)
  with e1 have e1': "\<bar>?d - ?r\<bar> \<le> 1 / 2 ^ 53" by linarith
  have dpos: "0 < ?d * 100 \<or> ?d = 0" using roundToDouble_nonneg[of ?r] by auto
  have d1: "?d \<le> 1 + 1 / 2 ^ 53" using e1' r(2) by linarith
  have e2: "\<bar>roundToDouble (?d * 100) - ?d * 100\<bar> \<le> ?d * 100 / 2 ^ 53"
  proof (cases "?d = 0")
    case True
    then show ?thesis by (simp add: roundToDouble_nonpos)
  next
    case False
    with dpos have "0 < ?d * 100" by blast
    then show ?thesis by (rule roundToDouble_error)
  qed
  define A :: real where "A = (1 + 1 / 2 ^ 53) * 100 / 2 ^ 53"
  define B :: real where "B = 1 / 2 ^ 53"
  define C :: real where "C = 1 / 10 ^ 13"
  have "?d * 100 / 2 ^ 53 \<le> (1 + 1 / 2 ^ 53) * 100 / 2 ^ 53"
    using d1 by (simp add: divide_le_cancel)
  with e2 have e2': "\<bar>roundToDouble (?d * 100) - ?d * 100\<bar> \<le> A"
    unfolding A_def by linarith
  have e1'': "\<bar>?d - ?r\<bar> \<le> B" using e1' by (simp only: B_def)
  have "A + 100 * B \<le> C" by (simp add: A_def B_def C_def)
  moreover have "\<And>p d r :: real. \<bar>d - r\<bar> \<le> B \<Longrightarrow> \<bar>p - d * 100\<bar> \<le> A \<Longrightarrow> A + 100 * B \<le> C
      \<Longrightarrow> \<bar>p - r * 100\<bar> \<le> C"
    by linarith
  ultimately have "\<bar>roundToDouble (?d * 100) - ?r * 100\<bar> \<le> C"
    using e1'' e2' by blast
  then show ?thesis by (simp only: C_def)
qed

lemma example_ratio:
  "roundToDouble (real (23::nat) / real ((23::nat) + 137)) = 5179139571476070 / 2 ^ 55"
proof -
  have "roundToDouble (23 / 160) = of_int (roundHalfEven (23 / 160 * 2 ^ 55)) / 2 ^ 55"
    by (rule roundToDouble_scaled) (simp_all add: significandLow_def)
  moreover have "roundHalfEven (23 / 160 * 2 ^ 55) = 5179139571476070"
    by (simp add: roundHalfEven_def Let_def)
  ultimately show ?thesis by simp
qed

lemma example_percentage:
  "roundToDouble (5179139571476070 / 2 ^ 55 * 100) = 8092405580431359 / 2 ^ 49"
proof -
  have "roundToDouble (5179139571476070 / 2 ^ 55 * 100)
        = of_int (roundHalfEven (5179139571476070 / 2 ^ 55 * 100 * 2 ^ 49)) / 2 ^ 49"
    by (rule roundToDouble_scaled) (simp_all add: significandLow_def)
  moreover have "roundHalfEven (5179139571476070 / 2 ^ 55 * 100 * 2 ^ 49) = 8092405580431359"
    by (simp add: roundHalfEven_def Let_def)
  ultimately show ?thesis by simp
qed

lemma roundToDouble_half: "roundToDouble (real (1::nat) / real ((1::nat) + 1)) = 1 / 2"
proof -
  have "roundToDouble (1 / 2) = of_int (roundHalfEven (1 / 2 * 2 ^ 53)) / 2 ^ 53"
    by (rule roundToDouble_scaled) (simp_all add: significandLow_def)
  moreover have "roundHalfEven (1 / 2 * 2 ^ 53) = 4503599627370496"
    by (simp add: roundHalfEven_def Let_def)
  ultimately show ?thesis by simp
qed

lemma roundToDouble_fifty: "roundToDouble (1 / 2 * 100) = 50"
proof -
  have "roundToDouble 50 = of_int (roundHalfEven (50 * 2 ^ 47)) / 2 ^ 47"
    by (rule roundToDouble_scaled) (simp_all add: significandLow_def)
  moreover have "roundHalfEven (50 * 2 ^ 47) = 7036874417766400"
    by (simp add: roundHalfEven_def Let_def)
  ultimately show ?thesis by simp
qed

text \<open>
  C9, as the code has it. \<open>hitRate\<close> is a string: for at least one counted lookup the
  percentage of hits as the code computes it, a division and a multiplication by 100 in
  double precision (the result is within \<open>10^-13\<close> of the exact percentage), rounded to
  two decimals (the nearest hundredth, the larger of two), written with its two decimals
  and a percent sign; \<open>"0%"\<close> before any lookup. The object also holds the two counters
  and the number of keys.
\<close>

theorem getStats_hitRate:
  "(0 < hits st + misses st \<longrightarrow>
      (\<exists>x n. x = roundToDouble (roundToDouble (real (hits st) / real (hits st + misses st)) * 100)
         \<and> \<bar>x - real (hits st) / real (hits st + misses st) * 100\<bar> \<le> 1 / 10 ^ 13
         \<and> n = nat \<lfloor>x * 100 + 1 / 2\<rfloor>
         \<and> \<bar>real n / 100 - x\<bar> \<le> 1 / 200
         \<and> hitRate (getStats st)
             = String (decimalNat (n div 100) @ [0x2E, 0x30 + n div 10 mod 10, 0x30 + n mod 10]
                       @ js ''%'')))
   \<and> (hits st + misses st = 0 \<longrightarrow> hitRate (getStats st) = String (js ''0%''))
   \<and> stats_hits (getStats st) = Number (real (hits st))
   \<and> stats_misses (getStats st) = Number (real (misses st))
   \<and> keys (getStats st) = Number (real (length (nc_keys (searchCache st))))"
proof (intro conjI impI)
  assume pos: "0 < hits st + misses st"
  let ?x = "roundToDouble (roundToDouble (real (hits st) / real (hits st + misses st)) * 100)"
  let ?n = "nat \<lfloor>?x * 100 + 1 / 2\<rfloor>"
  have "hitRate (getStats st)
        = String (decimalNat (?n div 100) @ [0x2E, 0x30 + ?n div 10 mod 10, 0x30 + ?n mod 10]
                  @ js ''%'')"
    using pos by (simp add: getStats_def toFixed2_digits Let_def)
  moreover have "\<bar>?x - real (hits st) / real (hits st + misses st) * 100\<bar> \<le> 1 / 10 ^ 13"
    using pos by (intro percentage_error) simp_all
  moreover have "\<bar>real ?n / 100 - ?x\<bar> \<le> 1 / 200"
    by (rule round_half_up_close) (rule roundToDouble_nonneg)
  ultimately
  show "\<exists>x n. x = ?x
         \<and> \<bar>x - real (hits st) / real (hits st + misses st) * 100\<bar> \<le> 1 / 10 ^ 13
         \<and> n = nat \<lfloor>x * 100 + 1 / 2\<rfloor>
         \<and> \<bar>real n / 100 - x\<bar> \<le> 1 / 200
         \<and> hitRate (getStats st)
             = String (decimalNat (n div 100) @ [0x2E, 0x30 + n div 10 mod 10, 0x30 + n mod 10]
                       @ js ''%'')"
    by blast
qed (simp_all add: getStats_def)

text \<open>
  After 23 hits and 137 misses the exact percentage is 14.375, which would round to
  14.38; the double the code computes lies just below it, and the string is
  \<open>"14.37%"\<close>.
\<close>

theorem getStats_hitRate_witness:
  "0 < hits exampleStats + misses exampleStats
   \<and> real (hits exampleStats) / real (hits exampleStats + misses exampleStats) * 100 = 14375 / 1000
   \<and> roundToDouble (roundToDouble (real (hits exampleStats)
                                    / real (hits exampleStats + misses exampleStats)) * 100)
       = 8092405580431359 / 2 ^ 49
   \<and> hitRate (getStats exampleStats) = String (js ''14.37%'')"
proof -
  have h: "hits exampleStats = 23" "misses exampleStats = 137"
    by (simp_all add: exampleStats_def)
  have pos: "0 < hits exampleStats + misses exampleStats" by (simp add: h)
  have x: "roundToDouble (roundToDouble (real (hits exampleStats)
                                         / real (hits exampleStats + misses exampleStats)) * 100)
           = 8092405580431359 / 2 ^ 49"
    by (simp only: h example_ratio example_percentage)
  have n: "nat \<lfloor>(8092405580431359 / 2 ^ 49 :: real) * 100 + 1 / 2\<rfloor> = 1437"
    by (simp add: floor_eq_iff nat_eq_iff)
  have d: "decimalNat (1437 div 100) = js ''14''"
    by (simp add: decimalNat_step[of 14] decimalNat_small js_def)
  have e: "real (hits exampleStats) / real (hits exampleStats + misses exampleStats) * 100
           = 14375 / 1000"
    by (simp add: exampleStats_def)
  from getStats_hitRate[of exampleStats]
  have "0 < hits exampleStats + misses exampleStats \<longrightarrow>
      (\<exists>x n. x = roundToDouble (roundToDouble (real (hits exampleStats)
                                    / real (hits exampleStats + misses exampleStats)) * 100)
         \<and> \<bar>x - real (hits exampleStats) / real (hits exampleStats + misses exampleStats) * 100\<bar>
             \<le> 1 / 10 ^ 13
         \<and> n = nat \<lfloor>x * 100 + 1 / 2\<rfloor>
         \<and> \<bar>real n / 100 - x\<bar> \<le> 1 / 200
         \<and> hitRate (getStats exampleStats)
             = String (decimalNat (n div 100) @ [0x2E, 0x30 + n div 10 mod 10, 0x30 + n mod 10]
                       @ js ''%''))"
    by (rule conjunct1)
  from this pos
  obtain y k where y: "y = roundToDouble (roundToDouble (real (hits exampleStats)
                                    / real (hits exampleStats + misses exampleStats)) * 100)"
    and k: "k = nat \<lfloor>y * 100 + 1 / 2\<rfloor>"
    and s: "hitRate (getStats exampleStats)
            = String (decimalNat (k div 100) @ [0x2E, 0x30 + k div 10 mod 10, 0x30 + k mod 10]
                      @ js ''%'')"
    by (elim impE exE conjE) assumption+
  have k': "k = 1437" unfolding k y x by (rule n)
  from s have "hitRate (getStats exampleStats)
        = String (decimalNat (1437 div 100) @ [0x2E, 0x30 + 1437 div 10 mod 10, 0x30 + 1437 mod 10]
                  @ js ''%'')"
    unfolding k' .
  then have "hitRate (getStats exampleStats) = String (js ''14.37%'')"
    unfolding d by (simp add: js_def)
  with pos x e show ?thesis by blast
qed

text \<open>
  C9 as stated fails: after one hit and one miss \<open>hitRate\<close> is the string
  \<open>"50.00%"\<close>, not the number 0.5.
\<close>

theorem getStats_hitRate_not_ratio:
  "hitRate (getStats halfHits) = String (js ''50.00%'')
   \<and> hitRate (getStats halfHits)
       \<noteq> Number (real (hits halfHits) / real (hits halfHits + misses halfHits))"
proof -
  have n: "nat \<lfloor>(50::real) * 100 + 1 / 2\<rfloor> = 5000"
    by (simp add: floor_eq_iff nat_eq_iff)
  have d: "decimalNat (5000 div 100) = js ''50''"
    by (simp add: decimalNat_step[of 50] decimalNat_small js_def)
  have t: "toFixed2 50 = js ''50.00''"
    unfolding toFixed2_digits Let_def n d by (simp add: js_def)
  have h: "hits halfHits = 1" "misses halfHits = 1"
    by (simp_all add: halfHits_def)
  have r: "roundToDouble (roundToDouble (real (hits halfHits)
                                         / real (hits halfHits + misses halfHits)) * 100) = 50"
    by (simp only: h roundToDouble_half roundToDouble_fifty)
  have "hitRate (getStats halfHits) = String (js ''50.00%'')"
    unfolding getStats_def r t by (simp add: h js_def)
  then show ?thesis by simp
qed

end
